theory Spec2Isabelle
  imports Main "HOL-Library.Word" "HOL-Library.Multiset"
begin

section \<open>Basic types\<close>

text \<open>
  NPU and chunk identifiers are C++ \<^verbatim>\<open>int\<close>s. Event times (\<^verbatim>\<open>Time\<close>, picoseconds) are
  unsigned 64-bit counters in the source (the delay table is filled with
  \<^verbatim>\<open>std::numeric_limits<uint64_t>::max()\<close>); they are modelled as natural numbers, with
  the wrap-around written out wherever the source adds two of them: \<open>wrap64 (a + b)\<close> is
  the sum as a 64-bit unsigned value, that is, modulo \<open>2^64\<close>. The one place where the source subtracts two of them
  (\<^verbatim>\<open>markLinkChunkMatch\<close>) is modelled on the 64-bit representation, so that the
  wrap-around of that subtraction is part of the model as well. The recorded transmission
  start time keeps the 64-bit pattern: \<open>uint\<close> and \<open>sint\<close> read it as an unsigned or as
  a signed value.
\<close>

type_synonym NpuID = int
type_synonym ChunkID = int
type_synonym Time = nat
type_synonym StartTime = "64 word"

definition wrap64 :: "nat \<Rightarrow> Time" where
  "wrap64 t = unat (word_of_nat t :: 64 word)"

datatype failure = AssertionFailed | OutOfRange | UndefinedBehaviour | OutOfFuel

section \<open>Topology\<close>

text \<open>
  The topology as the synthesizers read it, after \<^verbatim>\<open>setChunkSize\<close> has filled the delay
  table: \<^verbatim>\<open>connected[src][dest]\<close>, \<^verbatim>\<open>linkDelays[src][dest]\<close> and the ascending
  \<^verbatim>\<open>std::set\<close> of distinct link delays. The project is configured with
  \<^verbatim>\<open>CMAKE_BUILD_TYPE=Release\<close>, where \<^verbatim>\<open>assert\<close> is compiled out; the accessors are
  therefore plain table reads.
\<close>

record Topology =
  npusCount :: int
  connected :: "NpuID \<Rightarrow> NpuID \<Rightarrow> bool"
  linkDelays :: "NpuID \<Rightarrow> NpuID \<Rightarrow> Time"
  distinctLinkDelays :: "Time list"

definition isConnected :: "Topology \<Rightarrow> NpuID \<Rightarrow> NpuID \<Rightarrow> bool" where
  "isConnected topo src dest = connected topo src dest"

definition getLinkDelay :: "Topology \<Rightarrow> NpuID \<Rightarrow> NpuID \<Rightarrow> Time" where
  "getLinkDelay topo src dest = linkDelays topo src dest"

definition getDistinctLinkDelays :: "Topology \<Rightarrow> Time list" where
  "getDistinctLinkDelays topo = distinctLinkDelays topo"

section \<open>NpuResult\<close>

type_synonym LinkInfo = "ChunkID \<times> Time \<times> StartTime"

record NpuResult =
  npu :: int
  nr_npusCount :: int
  nr_chunksCount :: int
  ingressLinksInfo :: "NpuID \<rightharpoonup> LinkInfo list"
  egressLinksInfo :: "NpuID \<rightharpoonup> LinkInfo list"
  dependencyInfo :: "ChunkID \<rightharpoonup> int option"

text \<open>The body of the constructor's loop over \<^verbatim>\<open>dest\<close>.\<close>

definition initLinks :: "Topology \<Rightarrow> int \<Rightarrow> NpuID \<Rightarrow> NpuResult \<Rightarrow> NpuResult" where
  "initLinks topo n dest r =
     (if n = dest then r
      else
        let r1 = (if isConnected topo n dest
                  then r\<lparr>egressLinksInfo := (egressLinksInfo r)(dest \<mapsto> [])\<rparr> else r)
        in (if isConnected topo dest n
            then r1\<lparr>ingressLinksInfo := (ingressLinksInfo r1)(dest \<mapsto> [])\<rparr> else r1))"

definition NpuResult_new :: "int \<Rightarrow> Topology \<Rightarrow> int \<Rightarrow> NpuResult" where
  "NpuResult_new n topo chunks =
     (let r0 = \<lparr>npu = n, nr_npusCount = npusCount topo, nr_chunksCount = chunks,
                ingressLinksInfo = Map.empty, egressLinksInfo = Map.empty,
                dependencyInfo = Map.empty\<rparr>;
          r1 = fold (initLinks topo n) [0..npusCount topo - 1] r0
      in fold (\<lambda>chunk r. r\<lparr>dependencyInfo := (dependencyInfo r)(chunk \<mapsto> None)\<rparr>)
           [0..chunks - 1] r1)"

text \<open>
  \<^verbatim>\<open>ingressLinksInfo[src].push_back(...)\<close>: \<^verbatim>\<open>operator[]\<close> creates an empty list for a
  missing key.
\<close>

definition push_back_at :: "('k \<rightharpoonup> 'v list) \<Rightarrow> 'k \<Rightarrow> 'v \<Rightarrow> ('k \<rightharpoonup> 'v list)" where
  "push_back_at m k v = m(k \<mapsto> (case m k of None \<Rightarrow> [] | Some l \<Rightarrow> l) @ [v])"

definition addIngressLinkInfo ::
  "ChunkID \<Rightarrow> NpuID \<Rightarrow> Time \<Rightarrow> StartTime \<Rightarrow> NpuResult \<Rightarrow> NpuResult" where
  "addIngressLinkInfo chunk src currentTime transmissionStartTime r =
     (let ing = push_back_at (ingressLinksInfo r) src (chunk, currentTime, transmissionStartTime);
          opIdx = int (length (case ing src of None \<Rightarrow> [] | Some l \<Rightarrow> l)) - 1
      in r\<lparr>ingressLinksInfo := ing, dependencyInfo := (dependencyInfo r)(chunk \<mapsto> Some opIdx)\<rparr>)"

definition addEgressLinkInfo ::
  "ChunkID \<Rightarrow> NpuID \<Rightarrow> Time \<Rightarrow> StartTime \<Rightarrow> NpuResult \<Rightarrow> NpuResult" where
  "addEgressLinkInfo chunk dest currentTime transmissionStartTime r =
     r\<lparr>egressLinksInfo :=
         push_back_at (egressLinksInfo r) dest (chunk, currentTime, transmissionStartTime)\<rparr>"

text \<open>
  \<^verbatim>\<open>std::map::at\<close> throws \<^verbatim>\<open>std::out_of_range\<close> for a missing key; inside a
  \<^verbatim>\<open>noexcept\<close> function that ends the program.
\<close>

definition map_at :: "('k \<rightharpoonup> 'v) \<Rightarrow> 'k \<Rightarrow> failure + 'v" where
  "map_at m k = (case m k of None \<Rightarrow> Inl OutOfRange | Some v \<Rightarrow> Inr v)"

text \<open>
  The two getters. Their range assertion is kept as a failing branch (the debug build); in
  the release build the branch is absent.
\<close>

definition getIngressLinkInfo :: "NpuResult \<Rightarrow> NpuID \<Rightarrow> failure + LinkInfo list" where
  "getIngressLinkInfo r src =
     (if \<not> (0 \<le> src \<and> src < nr_npusCount r) then Inl AssertionFailed
      else if ingressLinksInfo r src = None then Inr []
      else map_at (ingressLinksInfo r) src)"

definition getEgressLinkInfo :: "NpuResult \<Rightarrow> NpuID \<Rightarrow> failure + LinkInfo list" where
  "getEgressLinkInfo r dest =
     (if \<not> (0 \<le> dest \<and> dest < nr_npusCount r) then Inl AssertionFailed
      else if egressLinksInfo r dest = None then Inr []
      else map_at (egressLinksInfo r) dest)"

section \<open>SynthesisResult\<close>

text \<open>
  \<^verbatim>\<open>npuResults\<close> is a \<^verbatim>\<open>std::vector\<close> with one entry per NPU, indexed by NPU id; it is
  modelled as a table over NPU ids. The declaration of \<^verbatim>\<open>collectiveTime\<close> is not among the
  sources; its initial value 0 is the value the beam synthesizer tests for.
\<close>

record SynthesisResult =
  sr_npusCount :: int
  sr_chunksCount :: int
  npuResults :: "NpuID \<Rightarrow> NpuResult"
  collectiveTime :: Time

definition SynthesisResult_new :: "Topology \<Rightarrow> int \<Rightarrow> SynthesisResult" where
  "SynthesisResult_new topo chunks =
     \<lparr>sr_npusCount = npusCount topo, sr_chunksCount = chunks,
      npuResults = (\<lambda>n. NpuResult_new n topo chunks), collectiveTime = 0\<rparr>"

definition result_markLinkChunkMatch ::
  "ChunkID \<Rightarrow> NpuID \<Rightarrow> NpuID \<Rightarrow> Time \<Rightarrow> StartTime \<Rightarrow> SynthesisResult \<Rightarrow> SynthesisResult" where
  "result_markLinkChunkMatch chunk src dest currentTime transmissionStartTime sr =
     (let rs1 = (npuResults sr)
                  (src := addEgressLinkInfo chunk dest currentTime transmissionStartTime
                            (npuResults sr src));
          rs2 = rs1(dest := addIngressLinkInfo chunk src currentTime transmissionStartTime
                              (rs1 dest))
      in sr\<lparr>npuResults := rs2\<rparr>)"

definition setCollectiveTime :: "Time \<Rightarrow> SynthesisResult \<Rightarrow> SynthesisResult" where
  "setCollectiveTime newCollectiveTime sr = sr\<lparr>collectiveTime := newCollectiveTime\<rparr>"

definition getCollectiveTime :: "SynthesisResult \<Rightarrow> Time" where
  "getCollectiveTime sr = collectiveTime sr"

text \<open>The list recorded for the link from \<open>src\<close> to \<open>dest\<close> (empty when there is no entry).\<close>

definition egressOf :: "SynthesisResult \<Rightarrow> NpuID \<Rightarrow> NpuID \<Rightarrow> LinkInfo list" where
  "egressOf sr src dest =
     (case egressLinksInfo (npuResults sr src) dest of None \<Rightarrow> [] | Some l \<Rightarrow> l)"

definition ingressOf :: "SynthesisResult \<Rightarrow> NpuID \<Rightarrow> NpuID \<Rightarrow> LinkInfo list" where
  "ingressOf sr src dest =
     (case ingressLinksInfo (npuResults sr dest) src of None \<Rightarrow> [] | Some l \<Rightarrow> l)"

section \<open>Collective conditions\<close>

text \<open>
  Both conditions are \<^verbatim>\<open>std::map<NpuID, std::set<ChunkID>>\<close>. The precondition is only
  looked up (\<^verbatim>\<open>at\<close>) and inserted into, and is a finite map to chunk sets. The
  postcondition is walked by position (\<^verbatim>\<open>std::next(begin(), idx)\<close>), so it is the list of
  its entries in key order, each with its chunks in ascending order.
\<close>

type_synonym Precondition = "NpuID \<rightharpoonup> ChunkID set"
type_synonym Postcondition = "(NpuID \<times> ChunkID list) list"

record Collective =
  chunksCount :: int
  precondition0 :: Precondition
  postcondition0 :: Postcondition

definition getChunksCount :: "Collective \<Rightarrow> int" where
  "getChunksCount c = chunksCount c"

definition getPrecondition :: "Collective \<Rightarrow> Precondition" where
  "getPrecondition c = precondition0 c"

definition getPostcondition :: "Collective \<Rightarrow> Postcondition" where
  "getPostcondition c = postcondition0 c"

text \<open>\<^verbatim>\<open>precondition[dest].insert(chunk)\<close>\<close>

definition insertChunk :: "NpuID \<Rightarrow> ChunkID \<Rightarrow> Precondition \<Rightarrow> Precondition" where
  "insertChunk dest chunk P =
     P(dest \<mapsto> insert chunk (case P dest of None \<Rightarrow> {} | Some S \<Rightarrow> S))"

text \<open>
  \<^verbatim>\<open>postcondition[dest].erase(chunk); if (postcondition[dest].empty()) postcondition.erase(dest);\<close>
  (for a missing key \<^verbatim>\<open>operator[]\<close> creates an empty entry, which the second statement
  removes again).
\<close>

definition eraseChunk :: "NpuID \<Rightarrow> ChunkID \<Rightarrow> Postcondition \<Rightarrow> Postcondition" where
  "eraseChunk dest chunk Q =
     filter (\<lambda>(d, cs). \<not> (d = dest \<and> cs = []))
       (map (\<lambda>(d, cs). if d = dest then (d, removeAll chunk cs) else (d, cs)) Q)"

text \<open>
  What \<^verbatim>\<open>std::map\<close> and \<^verbatim>\<open>std::set\<close> guarantee of a postcondition: keys and chunks strictly
  ascending.
\<close>

definition wf_postcondition :: "Postcondition \<Rightarrow> bool" where
  "wf_postcondition Q =
     (sorted_wrt (<) (map fst Q) \<and> list_all (\<lambda>(d, cs). sorted_wrt (<) cs) Q)"

definition chunkTotal :: "Postcondition \<Rightarrow> nat" where
  "chunkTotal Q = sum_list (map (\<lambda>(d, cs). length cs) Q)"

section \<open>Event queue\<close>

text \<open>
  Modelled from the spec: the event queue (\<^verbatim>\<open>event_queue.h\<close> and its implementation are not
  among the sources). It is an ordered set of future times: \<^verbatim>\<open>schedule(t)\<close> inserts
  (idempotent), \<^verbatim>\<open>pop()\<close> returns and removes the smallest, \<^verbatim>\<open>getCurrentTime()\<close> returns
  0 initially.
\<close>

record EventQueue =
  eq_currentTime :: Time
  events :: "Time set"

definition EventQueue_new :: EventQueue where
  "EventQueue_new = \<lparr>eq_currentTime = 0, events = {}\<rparr>"

definition getCurrentTime :: "EventQueue \<Rightarrow> Time" where
  "getCurrentTime q = eq_currentTime q"

definition schedule :: "Time \<Rightarrow> EventQueue \<Rightarrow> EventQueue" where
  "schedule t q = q\<lparr>events := insert t (events q)\<rparr>"

definition empty_queue :: "EventQueue \<Rightarrow> bool" where
  "empty_queue q = (events q = {})"

definition pop :: "EventQueue \<Rightarrow> Time \<times> EventQueue" where
  "pop q = (Min (events q),
            q\<lparr>eq_currentTime := Min (events q), events := events q - {Min (events q)}\<rparr>)"

section \<open>Time-expanded network\<close>

text \<open>
  Modelled from the spec: the time-expanded network (only its header is among the sources).
  \<^verbatim>\<open>linkBusyUntil[s][d]\<close> is initially 0; \<^verbatim>\<open>updateCurrentTime(T)\<close> sets the current time
  and, for each connected pair, \<^verbatim>\<open>linkAvailable[s][d] := (linkBusyUntil[s][d] <= T)\<close>;
  \<^verbatim>\<open>backtrackTEN(dest)\<close> returns the NPUs \<open>s\<close> with a connected, available link to
  \<open>dest\<close> over which a transmission can be complete at the current time, that is, can
  have started at the time \<open>currentTime - linkDelay(s,dest)\<close>: times are non-negative,
  so the link delay is at most the current time; \<^verbatim>\<open>markLinkOccupied(s,d)\<close> sets
  \<^verbatim>\<open>linkBusyUntil[s][d] := currentTime + linkDelay(s,d)\<close>, a sum of two \<^verbatim>\<open>Time\<close> values,
  and \<^verbatim>\<open>linkAvailable[s][d] := false\<close>.
\<close>

record TimeExpandedNetwork =
  ten_currentTime :: Time
  linkBusyUntil :: "NpuID \<Rightarrow> NpuID \<Rightarrow> Time"
  linkAvailable :: "NpuID \<Rightarrow> NpuID \<Rightarrow> bool"

definition TimeExpandedNetwork_new :: "Topology \<Rightarrow> TimeExpandedNetwork" where
  "TimeExpandedNetwork_new topo =
     \<lparr>ten_currentTime = 0, linkBusyUntil = (\<lambda>s d. 0), linkAvailable = (\<lambda>s d. True)\<rparr>"

definition inRange :: "Topology \<Rightarrow> NpuID \<Rightarrow> bool" where
  "inRange topo n = (0 \<le> n \<and> n < npusCount topo)"

definition updateCurrentTime ::
  "Topology \<Rightarrow> Time \<Rightarrow> TimeExpandedNetwork \<Rightarrow> TimeExpandedNetwork" where
  "updateCurrentTime topo newCurrentTime t =
     t\<lparr>ten_currentTime := newCurrentTime,
       linkAvailable :=
         (\<lambda>s d. if inRange topo s \<and> inRange topo d \<and> isConnected topo s d
                 then linkBusyUntil t s d \<le> newCurrentTime
                 else linkAvailable t s d)\<rparr>"

definition backtrackTEN :: "Topology \<Rightarrow> TimeExpandedNetwork \<Rightarrow> NpuID \<Rightarrow> NpuID list" where
  "backtrackTEN topo t dest =
     filter (\<lambda>s. isConnected topo s dest \<and> linkAvailable t s dest \<and>
                 getLinkDelay topo s dest \<le> ten_currentTime t)
       [0..npusCount topo - 1]"

definition markLinkOccupied ::
  "Topology \<Rightarrow> NpuID \<Rightarrow> NpuID \<Rightarrow> TimeExpandedNetwork \<Rightarrow> TimeExpandedNetwork" where
  "markLinkOccupied topo src dest t =
     t\<lparr>linkBusyUntil :=
         (linkBusyUntil t)
           (src := (linkBusyUntil t src)
                     (dest := wrap64 (ten_currentTime t + getLinkDelay topo src dest))),
       linkAvailable := (linkAvailable t)(src := (linkAvailable t src)(dest := False))\<rparr>"

section \<open>Random engine\<close>

text \<open>
  The Mersenne twister is a parameter of the model: a stream of naturals. A draw from
  \<^verbatim>\<open>std::uniform_int_distribution<>(0, n - 1)\<close> takes the head of the stream modulo \<open>n\<close> and
  leaves the tail; every sequence of in-range draws arises from some stream.
\<close>

type_synonym RandomEngine = "nat \<Rightarrow> nat"

definition uniform_int :: "RandomEngine \<Rightarrow> nat \<Rightarrow> nat \<times> RandomEngine" where
  "uniform_int g n = (g 0 mod n, (\<lambda>i. g (Suc i)))"

section \<open>Selection steps shared by the synthesizers\<close>

text \<open>
  \<^verbatim>\<open>selectPostcondition\<close> and \<^verbatim>\<open>checkCandidateSourceNpus\<close> have the same text in the
  greedy and in the beam synthesizer. Drawing from an empty range
  (\<^verbatim>\<open>uniform_int_distribution<>(0, -1)\<close>) and dereferencing \<^verbatim>\<open>end()\<close> are undefined
  behaviour.
\<close>

definition selectPostcondition ::
  "RandomEngine \<Rightarrow> Postcondition \<Rightarrow> failure + ((NpuID \<times> ChunkID) \<times> Postcondition \<times> RandomEngine)" where
  "selectPostcondition g currentPostcondition =
     (if currentPostcondition = [] then Inl UndefinedBehaviour
      else
        let (randomNpuIdx, g1) = uniform_int g (length currentPostcondition);
            (dest, chunks) = currentPostcondition ! randomNpuIdx
        in if chunks = [] then Inl UndefinedBehaviour
           else
             let (randomChunkIdx, g2) = uniform_int g1 (length chunks);
                 chunk = chunks ! randomChunkIdx;
                 chunks' = take randomChunkIdx chunks @ drop (Suc randomChunkIdx) chunks;
                 post' = (if chunks' = []
                          then take randomNpuIdx currentPostcondition
                               @ drop (Suc randomNpuIdx) currentPostcondition
                          else currentPostcondition[randomNpuIdx := (dest, chunks')])
             in Inr ((dest, chunk), post', g2))"

fun checkCandidateSourceNpus ::
  "ChunkID \<Rightarrow> Precondition \<Rightarrow> NpuID list \<Rightarrow> failure + NpuID list" where
  "checkCandidateSourceNpus chunk currentPrecondition [] = Inr []"
| "checkCandidateSourceNpus chunk currentPrecondition (src # sourceNpus) =
     (case map_at currentPrecondition src of
        Inl e \<Rightarrow> Inl e
      | Inr chunksAtSrc \<Rightarrow>
          (case checkCandidateSourceNpus chunk currentPrecondition sourceNpus of
             Inl e \<Rightarrow> Inl e
           | Inr rest \<Rightarrow> Inr (if chunk \<in> chunksAtSrc then src # rest else rest)))"

lemma uniform_int_less: "0 < n \<Longrightarrow> fst (uniform_int g n) < n"
  by (simp add: uniform_int_def)

lemma chunkTotal_split:
  "i < length Q \<Longrightarrow>
   chunkTotal Q = chunkTotal (take i Q) + length (snd (Q ! i)) + chunkTotal (drop (Suc i) Q)"
proof -
  assume "i < length Q"
  then have "Q = take i Q @ Q ! i # drop (Suc i) Q"
    by (rule id_take_nth_drop)
  then have "chunkTotal Q = chunkTotal (take i Q @ Q ! i # drop (Suc i) Q)"
    by simp
  then show ?thesis
    by (simp add: chunkTotal_def split_beta)
qed

lemma chunkTotal_remove:
  "i < length Q \<Longrightarrow>
   chunkTotal (take i Q @ drop (Suc i) Q) + length (snd (Q ! i)) = chunkTotal Q"
  using chunkTotal_split [of i Q] by (simp add: chunkTotal_def)

lemma chunkTotal_update:
  "i < length Q \<Longrightarrow>
   chunkTotal (Q[i := (d, cs)]) + length (snd (Q ! i)) = chunkTotal Q + length cs"
  using chunkTotal_split [of i Q]
  by (simp add: upd_conv_take_nth_drop) (simp add: chunkTotal_def)

lemma selectPostcondition_Inr:
  assumes "selectPostcondition g Q = Inr ((dest, chunk), Q', g')"
  shows "\<exists>i j chunks. i < length Q \<and> Q ! i = (dest, chunks) \<and> j < length chunks \<and>
           chunk = chunks ! j \<and>
           Q' = (if take j chunks @ drop (Suc j) chunks = [] then take i Q @ drop (Suc i) Q
                 else Q[i := (dest, take j chunks @ drop (Suc j) chunks)])"
proof -
  from assms have ne: "Q \<noteq> []"
    by (auto simp: selectPostcondition_def)
  obtain i g1 where u1: "uniform_int g (length Q) = (i, g1)"
    by (cases "uniform_int g (length Q)")
  have i: "i < length Q"
    using ne uniform_int_less [of "length Q" g] u1 by simp
  obtain d chunks where dc: "Q ! i = (d, chunks)"
    by (cases "Q ! i")
  from assms ne u1 dc have cne: "chunks \<noteq> []"
    by (auto simp: selectPostcondition_def split: if_splits)
  obtain j g2 where u2: "uniform_int g1 (length chunks) = (j, g2)"
    by (cases "uniform_int g1 (length chunks)")
  have j: "j < length chunks"
    using cne uniform_int_less [of "length chunks" g1] u2 by simp
  from assms ne u1 dc cne u2
  have "d = dest" "chunk = chunks ! j"
    "Q' = (if take j chunks @ drop (Suc j) chunks = [] then take i Q @ drop (Suc i) Q
           else Q[i := (dest, take j chunks @ drop (Suc j) chunks)])"
    by (auto simp: selectPostcondition_def Let_def split: if_splits)
  with i j dc show ?thesis by blast
qed

lemma selectPostcondition_chunkTotal:
  assumes "selectPostcondition g Q = Inr (x, Q', g')"
  shows "chunkTotal Q = Suc (chunkTotal Q')"
proof -
  obtain dest chunk where x: "x = (dest, chunk)"
    by (cases x)
  from selectPostcondition_Inr [OF assms [unfolded x]]
  obtain i j chunks where i: "i < length Q" and dc: "Q ! i = (dest, chunks)"
    and j: "j < length chunks"
    and Q': "Q' = (if take j chunks @ drop (Suc j) chunks = [] then take i Q @ drop (Suc i) Q
                   else Q[i := (dest, take j chunks @ drop (Suc j) chunks)])"
    by blast
  define cs' where "cs' = take j chunks @ drop (Suc j) chunks"
  have len: "Suc (length cs') = length chunks"
    using j by (simp add: cs'_def)
  have Q'': "Q' = (if cs' = [] then take i Q @ drop (Suc i) Q else Q[i := (dest, cs')])"
    using Q' by (simp only: cs'_def)
  show ?thesis
  proof (cases "cs' = []")
    case True
    with Q'' chunkTotal_remove [OF i] dc len show ?thesis by simp
  next
    case False
    with Q'' chunkTotal_update [OF i, of dest cs'] dc len show ?thesis by simp
  qed
qed

section \<open>The sort of the C++ library\<close>

text \<open>
  \<^verbatim>\<open>std::sort\<close> is library code. This section follows the \<^verbatim>\<open>std::sort\<close> of the GNU
  C++ library, the standard library of a build with GCC on Linux (\<^verbatim>\<open>bits/stl_algo.h\<close>,
  \<^verbatim>\<open>bits/stl_heap.h\<close>): an introsort, that is, quicksort with a median-of-three pivot
  down to ranges of at most 16 elements, heap sort for a range reached with the depth limit
  \<open>2 * floor(log2 n)\<close> used up, and one insertion sort over the whole range at the end. The
  vector is a list and an iterator is an index into it. The functions called
  \<^verbatim>\<open>__unguarded_...\<close> in the library rely on the comparator for staying inside the vector;
  a read before its first or past its last element is undefined behaviour.
\<close>

definition iter_swap :: "nat \<Rightarrow> nat \<Rightarrow> 'a list \<Rightarrow> 'a list" where
  "iter_swap a b xs = xs[a := xs ! b, b := xs ! a]"

text \<open>
  \<^verbatim>\<open>__unguarded_linear_insert(last, comp)\<close>, with \<open>val\<close> the element taken out at \<open>last\<close>:
  \<^verbatim>\<open>next = last - 1; while (comp(val, next)) { *last = *next; last = next; --next; }\<close>
  \<^verbatim>\<open>*last = val;\<close>
\<close>

fun unguarded_linear_insert ::
  "('a \<Rightarrow> 'a \<Rightarrow> bool) \<Rightarrow> 'a \<Rightarrow> nat \<Rightarrow> 'a list \<Rightarrow> failure + 'a list" where
  "unguarded_linear_insert cmp val 0 xs = Inl UndefinedBehaviour"
| "unguarded_linear_insert cmp val (Suc next) xs =
     (if cmp val (xs ! next)
      then unguarded_linear_insert cmp val next (xs[Suc next := xs ! next])
      else Inr (xs[Suc next := val]))"

text \<open>A \<^verbatim>\<open>for\<close> loop over indices whose body may fail.\<close>

fun for_each ::
  "(nat \<Rightarrow> 'a list \<Rightarrow> failure + 'a list) \<Rightarrow> nat list \<Rightarrow> 'a list \<Rightarrow> failure + 'a list" where
  "for_each body [] xs = Inr xs"
| "for_each body (i # rest) xs =
     (case body i xs of Inl e \<Rightarrow> Inl e | Inr ys \<Rightarrow> for_each body rest ys)"

text \<open>
  The body of the loop of \<^verbatim>\<open>__insertion_sort(first, last, comp)\<close>: an element that goes
  before the first one is moved to the front (\<^verbatim>\<open>move_backward(first, i, i + 1)\<close>), any other
  is inserted by \<^verbatim>\<open>__unguarded_linear_insert\<close>.
\<close>

definition insertion_sort_step ::
  "('a \<Rightarrow> 'a \<Rightarrow> bool) \<Rightarrow> nat \<Rightarrow> nat \<Rightarrow> 'a list \<Rightarrow> failure + 'a list" where
  "insertion_sort_step cmp first i xs =
     (if cmp (xs ! i) (xs ! first)
      then Inr (take first xs @ xs ! i # take (i - first) (drop first xs) @ drop (Suc i) xs)
      else unguarded_linear_insert cmp (xs ! i) i xs)"

definition insertion_sort ::
  "('a \<Rightarrow> 'a \<Rightarrow> bool) \<Rightarrow> nat \<Rightarrow> nat \<Rightarrow> 'a list \<Rightarrow> failure + 'a list" where
  "insertion_sort cmp first last_it xs =
     (if first = last_it then Inr xs
      else for_each (insertion_sort_step cmp first) [Suc first..<last_it] xs)"

definition unguarded_insertion_sort ::
  "('a \<Rightarrow> 'a \<Rightarrow> bool) \<Rightarrow> nat \<Rightarrow> nat \<Rightarrow> 'a list \<Rightarrow> failure + 'a list" where
  "unguarded_insertion_sort cmp first last_it xs =
     for_each (\<lambda>i ys. unguarded_linear_insert cmp (ys ! i) i ys) [first..<last_it] xs"

definition final_insertion_sort ::
  "('a \<Rightarrow> 'a \<Rightarrow> bool) \<Rightarrow> nat \<Rightarrow> nat \<Rightarrow> 'a list \<Rightarrow> failure + 'a list" where
  "final_insertion_sort cmp first last_it xs =
     (if 16 < last_it - first
      then (case insertion_sort cmp first (first + 16) xs of
              Inl e \<Rightarrow> Inl e
            | Inr ys \<Rightarrow> unguarded_insertion_sort cmp (first + 16) last_it ys)
      else insertion_sort cmp first last_it xs)"

text \<open>\<^verbatim>\<open>__move_median_to_first(result, a, b, c, comp)\<close>\<close>

definition move_median_to_first ::
  "('a \<Rightarrow> 'a \<Rightarrow> bool) \<Rightarrow> nat \<Rightarrow> nat \<Rightarrow> nat \<Rightarrow> nat \<Rightarrow> 'a list \<Rightarrow> 'a list" where
  "move_median_to_first cmp result a b c xs =
     (if cmp (xs ! a) (xs ! b)
      then (if cmp (xs ! b) (xs ! c) then iter_swap result b xs
            else if cmp (xs ! a) (xs ! c) then iter_swap result c xs
            else iter_swap result a xs)
      else if cmp (xs ! a) (xs ! c) then iter_swap result a xs
      else if cmp (xs ! b) (xs ! c) then iter_swap result c xs
      else iter_swap result b xs)"

text \<open>
  The two inner loops of \<^verbatim>\<open>__unguarded_partition\<close>:
  \<^verbatim>\<open>while (comp(first, pivot)) ++first;\<close> and \<^verbatim>\<open>while (comp(pivot, last)) --last;\<close>
\<close>

function advance_first ::
  "('a \<Rightarrow> 'a \<Rightarrow> bool) \<Rightarrow> 'a list \<Rightarrow> nat \<Rightarrow> nat \<Rightarrow> failure + nat" where
  "advance_first cmp xs pivot first =
     (if length xs \<le> first then Inl UndefinedBehaviour
      else if cmp (xs ! first) (xs ! pivot) then advance_first cmp xs pivot (Suc first)
      else Inr first)"
  by pat_completeness auto
termination
  by (relation "measure (\<lambda>(cmp, xs, pivot, first). length xs - first)") auto

fun retreat_last ::
  "('a \<Rightarrow> 'a \<Rightarrow> bool) \<Rightarrow> 'a list \<Rightarrow> nat \<Rightarrow> nat \<Rightarrow> failure + nat" where
  "retreat_last cmp xs pivot 0 =
     (if cmp (xs ! pivot) (xs ! 0) then Inl UndefinedBehaviour else Inr 0)"
| "retreat_last cmp xs pivot (Suc last_it) =
     (if cmp (xs ! pivot) (xs ! Suc last_it) then retreat_last cmp xs pivot last_it
      else Inr (Suc last_it))"

lemma retreat_last_le: "retreat_last cmp xs pivot last_it = Inr last1 \<Longrightarrow> last1 \<le> last_it"
  by (induction last_it) (auto split: if_splits)

text \<open>
  \<^verbatim>\<open>__unguarded_partition(first, last, pivot, comp)\<close>; the result is the returned iterator
  and the vector.
\<close>

function unguarded_partition ::
  "('a \<Rightarrow> 'a \<Rightarrow> bool) \<Rightarrow> nat \<Rightarrow> nat \<Rightarrow> nat \<Rightarrow> 'a list \<Rightarrow> failure + (nat \<times> 'a list)" where
  "unguarded_partition cmp first last_it pivot xs =
     (case advance_first cmp xs pivot first of
        Inl e \<Rightarrow> Inl e
      | Inr first1 \<Rightarrow>
          if last_it = 0 then Inl UndefinedBehaviour
          else (case retreat_last cmp xs pivot (last_it - 1) of
                  Inl e \<Rightarrow> Inl e
                | Inr last1 \<Rightarrow>
                    if \<not> first1 < last1 then Inr (first1, xs)
                    else unguarded_partition cmp (Suc first1) last1 pivot
                           (iter_swap first1 last1 xs)))"
  by pat_completeness auto
termination
  by (relation "measure (\<lambda>(cmp, first, last_it, pivot, xs). last_it)")
    (auto dest: retreat_last_le)

definition unguarded_partition_pivot ::
  "('a \<Rightarrow> 'a \<Rightarrow> bool) \<Rightarrow> nat \<Rightarrow> nat \<Rightarrow> 'a list \<Rightarrow> failure + (nat \<times> 'a list)" where
  "unguarded_partition_pivot cmp first last_it xs =
     (let mid = first + (last_it - first) div 2
      in unguarded_partition cmp (first + 1) last_it first
           (move_median_to_first cmp first (first + 1) mid (last_it - 1) xs))"

text \<open>
  The heap sort of \<^verbatim>\<open>bits/stl_heap.h\<close>. \<^verbatim>\<open>__push_heap(first, holeIndex, topIndex, value, comp)\<close>:
\<close>

function push_heap ::
  "('a \<Rightarrow> 'a \<Rightarrow> bool) \<Rightarrow> nat \<Rightarrow> nat \<Rightarrow> nat \<Rightarrow> 'a \<Rightarrow> 'a list \<Rightarrow> 'a list" where
  "push_heap cmp first holeIndex topIndex val xs =
     (if topIndex < holeIndex \<and> cmp (xs ! (first + (holeIndex - 1) div 2)) val
      then push_heap cmp first ((holeIndex - 1) div 2) topIndex val
             (xs[first + holeIndex := xs ! (first + (holeIndex - 1) div 2)])
      else xs[first + holeIndex := val])"
  by pat_completeness auto
termination
  by (relation "measure (\<lambda>(cmp, first, holeIndex, topIndex, val, xs). holeIndex)") auto

text \<open>
  The first loop of \<^verbatim>\<open>__adjust_heap\<close>: the hole moves down to the child that does not go
  before its sibling. The state is the hole index, \<^verbatim>\<open>secondChild\<close> and the vector.
\<close>

definition chosen_child :: "('a \<Rightarrow> 'a \<Rightarrow> bool) \<Rightarrow> nat \<Rightarrow> nat \<Rightarrow> 'a list \<Rightarrow> nat" where
  "chosen_child cmp first secondChild xs =
     (if cmp (xs ! (first + 2 * (secondChild + 1))) (xs ! (first + (2 * (secondChild + 1) - 1)))
      then 2 * (secondChild + 1) - 1 else 2 * (secondChild + 1))"

lemma chosen_child_greater: "secondChild < chosen_child cmp first secondChild xs"
  by (simp add: chosen_child_def)

function move_hole_down ::
  "('a \<Rightarrow> 'a \<Rightarrow> bool) \<Rightarrow> nat \<Rightarrow> nat \<Rightarrow> nat \<Rightarrow> nat \<Rightarrow> 'a list \<Rightarrow> nat \<times> nat \<times> 'a list" where
  "move_hole_down cmp first len holeIndex secondChild xs =
     (if secondChild < (len - 1) div 2
      then move_hole_down cmp first len (chosen_child cmp first secondChild xs)
             (chosen_child cmp first secondChild xs)
             (xs[first + holeIndex := xs ! (first + chosen_child cmp first secondChild xs)])
      else (holeIndex, secondChild, xs))"
  by pat_completeness auto
termination
  by (relation "measure (\<lambda>(cmp, first, len, holeIndex, secondChild, xs). len - secondChild)")
    (auto intro: diff_less_mono2 chosen_child_greater)

text \<open>\<^verbatim>\<open>__adjust_heap(first, holeIndex, len, value, comp)\<close>\<close>

definition adjust_heap ::
  "('a \<Rightarrow> 'a \<Rightarrow> bool) \<Rightarrow> nat \<Rightarrow> nat \<Rightarrow> nat \<Rightarrow> 'a \<Rightarrow> 'a list \<Rightarrow> 'a list" where
  "adjust_heap cmp first holeIndex len val xs =
     (let (hole1, secondChild, xs1) = move_hole_down cmp first len holeIndex holeIndex xs;
          (hole2, xs2) =
            (if even len \<and> secondChild = (len - 2) div 2
             then (2 * (secondChild + 1) - 1,
                   xs1[first + hole1 := xs1 ! (first + (2 * (secondChild + 1) - 1))])
             else (hole1, xs1))
      in push_heap cmp first hole2 holeIndex val xs2)"

text \<open>
  \<^verbatim>\<open>__make_heap(first, last, comp)\<close>: the loop runs \<^verbatim>\<open>parent\<close> from \<open>(len - 2) / 2\<close> down to
  0.
\<close>

fun make_heap_from ::
  "('a \<Rightarrow> 'a \<Rightarrow> bool) \<Rightarrow> nat \<Rightarrow> nat \<Rightarrow> nat \<Rightarrow> 'a list \<Rightarrow> 'a list" where
  "make_heap_from cmp first len 0 xs = adjust_heap cmp first 0 len (xs ! first) xs"
| "make_heap_from cmp first len (Suc parent) xs =
     make_heap_from cmp first len parent
       (adjust_heap cmp first (Suc parent) len (xs ! (first + Suc parent)) xs)"

definition make_heap :: "('a \<Rightarrow> 'a \<Rightarrow> bool) \<Rightarrow> nat \<Rightarrow> nat \<Rightarrow> 'a list \<Rightarrow> 'a list" where
  "make_heap cmp first last_it xs =
     (if last_it - first < 2 then xs
      else make_heap_from cmp first (last_it - first) ((last_it - first - 2) div 2) xs)"

text \<open>\<^verbatim>\<open>__pop_heap(first, last, result, comp)\<close>\<close>

definition pop_heap ::
  "('a \<Rightarrow> 'a \<Rightarrow> bool) \<Rightarrow> nat \<Rightarrow> nat \<Rightarrow> nat \<Rightarrow> 'a list \<Rightarrow> 'a list" where
  "pop_heap cmp first last_it result xs =
     adjust_heap cmp first 0 (last_it - first) (xs ! result) (xs[result := xs ! first])"

text \<open>\<^verbatim>\<open>__sort_heap\<close>: \<^verbatim>\<open>while (last - first > 1) { --last; __pop_heap(first, last, last, comp); }\<close>\<close>

function sort_heap :: "('a \<Rightarrow> 'a \<Rightarrow> bool) \<Rightarrow> nat \<Rightarrow> nat \<Rightarrow> 'a list \<Rightarrow> 'a list" where
  "sort_heap cmp first last_it xs =
     (if 1 < last_it - first
      then sort_heap cmp first (last_it - 1) (pop_heap cmp first (last_it - 1) (last_it - 1) xs)
      else xs)"
  by pat_completeness auto
termination
  by (relation "measure (\<lambda>(cmp, first, last_it, xs). last_it - first)") auto

text \<open>
  \<^verbatim>\<open>__partial_sort(first, middle, last, comp)\<close>: \<^verbatim>\<open>__heap_select\<close>, then \<^verbatim>\<open>__sort_heap\<close> on
  \<open>[first, middle)\<close>.
\<close>

definition heap_select ::
  "('a \<Rightarrow> 'a \<Rightarrow> bool) \<Rightarrow> nat \<Rightarrow> nat \<Rightarrow> nat \<Rightarrow> 'a list \<Rightarrow> 'a list" where
  "heap_select cmp first middle last_it xs =
     fold (\<lambda>i ys. if cmp (ys ! i) (ys ! first) then pop_heap cmp first middle i ys else ys)
       [middle..<last_it] (make_heap cmp first middle xs)"

definition partial_sort ::
  "('a \<Rightarrow> 'a \<Rightarrow> bool) \<Rightarrow> nat \<Rightarrow> nat \<Rightarrow> nat \<Rightarrow> 'a list \<Rightarrow> 'a list" where
  "partial_sort cmp first middle last_it xs =
     sort_heap cmp first middle (heap_select cmp first middle last_it xs)"

text \<open>
  \<^verbatim>\<open>__introsort_loop(first, last, depth_limit, comp)\<close>: while the range has more than 16
  elements, heap sort it if the depth limit is used up; otherwise partition it, sort the
  upper part by a recursive call and go on with the lower part.
\<close>

fun introsort_loop ::
  "('a \<Rightarrow> 'a \<Rightarrow> bool) \<Rightarrow> nat \<Rightarrow> nat \<Rightarrow> nat \<Rightarrow> 'a list \<Rightarrow> failure + 'a list" where
  "introsort_loop cmp first last_it 0 xs =
     (if 16 < last_it - first then Inr (partial_sort cmp first last_it last_it xs) else Inr xs)"
| "introsort_loop cmp first last_it (Suc depth_limit) xs =
     (if 16 < last_it - first
      then (case unguarded_partition_pivot cmp first last_it xs of
              Inl e \<Rightarrow> Inl e
            | Inr (cut_it, ys) \<Rightarrow>
                (case introsort_loop cmp cut_it last_it depth_limit ys of
                   Inl e \<Rightarrow> Inl e
                 | Inr zs \<Rightarrow> introsort_loop cmp first cut_it depth_limit zs))
      else Inr xs)"

text \<open>\<^verbatim>\<open>std::__lg(n)\<close>, the position of the highest set bit of \<open>n\<close>.\<close>

function lg :: "nat \<Rightarrow> nat" where
  "lg n = (if n < 2 then 0 else Suc (lg (n div 2)))"
  by pat_completeness auto
termination
  by (relation "measure id") auto

text \<open>\<^verbatim>\<open>std::sort(first, last, comp)\<close> on a whole vector.\<close>

definition libstdcxx_sort :: "('a \<Rightarrow> 'a \<Rightarrow> bool) \<Rightarrow> 'a list \<Rightarrow> failure + 'a list" where
  "libstdcxx_sort cmp xs =
     (if xs = [] then Inr xs
      else (case introsort_loop cmp 0 (length xs) (lg (length xs) * 2) xs of
              Inl e \<Rightarrow> Inl e
            | Inr ys \<Rightarrow> final_insertion_sort cmp 0 (length xs) ys))"

section \<open>Greedy synthesizer\<close>

text \<open>
  The synthesizer takes the sort of the (NPU, link delay) pairs with the comparator
  \<^verbatim>\<open>a.second > b.second\<close> as a parameter. What the C++ standard promises of
  \<^verbatim>\<open>std::sort\<close> is that it returns and that the result is a permutation of the input in
  which no element is ordered before an earlier one; it promises nothing about elements of
  equal link delay. \<open>gnu_std_sort\<close> is the sort of the GNU C++ library with this
  comparator.
\<close>

type_synonym Sorter = "(NpuID \<times> Time) list \<Rightarrow> failure + (NpuID \<times> Time) list"

definition std_sort_contract :: "Sorter \<Rightarrow> bool" where
  "std_sort_contract std_sort =
     (\<forall>xs. \<exists>ys. std_sort xs = Inr ys \<and> mset ys = mset xs \<and>
                 sorted_wrt (\<lambda>a b. snd b \<le> snd a) ys)"

definition gnu_std_sort :: Sorter where
  "gnu_std_sort = libstdcxx_sort (\<lambda>a b. snd b < snd a)"

record GreedySynthesizer =
  eventQueue :: EventQueue
  currentTime :: Time
  ten :: TimeExpandedNetwork
  synthesisResult :: SynthesisResult
  precondition :: Precondition
  postcondition :: Postcondition
  randomEngine :: RandomEngine

text \<open>
  \<^verbatim>\<open>selectSourceNpu\<close>, with \<^verbatim>\<open>N\<close> = 1. The candidates are a \<^verbatim>\<open>std::set\<close>, walked in
  ascending order. Indexing the vector past its end is undefined behaviour.
\<close>

definition greedy_selectSourceNpu ::
  "Sorter \<Rightarrow> Topology \<Rightarrow> NpuID list \<Rightarrow> NpuID \<Rightarrow> failure + NpuID" where
  "greedy_selectSourceNpu std_sort topo candidateSourceNpus dest =
     (if length candidateSourceNpus = 1 then Inr (hd candidateSourceNpus)
      else
        let delays = map (\<lambda>src. (src, getLinkDelay topo src dest)) candidateSourceNpus
        in (case std_sort delays of
              Inl e \<Rightarrow> Inl e
            | Inr sorted_delays \<Rightarrow>
                if 1 < length sorted_delays then Inr (fst (sorted_delays ! 1))
                else Inl UndefinedBehaviour))"

text \<open>
  \<^verbatim>\<open>markLinkChunkMatch\<close>. \<^verbatim>\<open>currentTime - linkDelay\<close> is a subtraction of unsigned 64-bit
  values.
\<close>

definition greedy_markLinkChunkMatch ::
  "Topology \<Rightarrow> NpuID \<Rightarrow> NpuID \<Rightarrow> ChunkID \<Rightarrow> GreedySynthesizer \<Rightarrow> GreedySynthesizer" where
  "greedy_markLinkChunkMatch topo src dest chunk st =
     (let linkDelay = getLinkDelay topo src dest;
          transmissionStartTime = (word_of_nat (currentTime st) - word_of_nat linkDelay :: StartTime)
      in st\<lparr>synthesisResult :=
               result_markLinkChunkMatch chunk src dest (currentTime st) transmissionStartTime
                 (synthesisResult st),
             ten := markLinkOccupied topo src dest (ten st),
             precondition := insertChunk dest chunk (precondition st),
             postcondition := eraseChunk dest chunk (postcondition st)\<rparr>)"

text \<open>One pass through the body of the \<^verbatim>\<open>while\<close> loop of \<^verbatim>\<open>linkChunkMatching\<close>.\<close>

definition greedy_matching_step ::
  "Sorter \<Rightarrow> Topology \<Rightarrow> Precondition \<Rightarrow> Postcondition \<Rightarrow> GreedySynthesizer \<Rightarrow>
     failure + (Postcondition \<times> GreedySynthesizer)" where
  "greedy_matching_step std_sort topo currentPrecondition currentPostcondition st =
     (case selectPostcondition (randomEngine st) currentPostcondition of
        Inl e \<Rightarrow> Inl e
      | Inr ((dest, chunk), post', g') \<Rightarrow>
          let st1 = st\<lparr>randomEngine := g'\<rparr>;
              sourceNpus = backtrackTEN topo (ten st1) dest
          in (case checkCandidateSourceNpus chunk currentPrecondition sourceNpus of
                Inl e \<Rightarrow> Inl e
              | Inr candidateSourceNpus \<Rightarrow>
                  if candidateSourceNpus = [] then Inr (post', st1)
                  else (case greedy_selectSourceNpu std_sort topo candidateSourceNpus dest of
                          Inl e \<Rightarrow> Inl e
                        | Inr src \<Rightarrow>
                            Inr (post', greedy_markLinkChunkMatch topo src dest chunk st1))))"

lemma greedy_matching_step_chunkTotal:
  "greedy_matching_step std_sort topo P Q st = Inr (Q', st') \<Longrightarrow> chunkTotal Q' < chunkTotal Q"
  by (auto simp: greedy_matching_step_def Let_def dest!: selectPostcondition_chunkTotal
      split: sum.splits prod.splits if_splits)

function greedy_matching_loop ::
  "Sorter \<Rightarrow> Topology \<Rightarrow> Precondition \<Rightarrow> Postcondition \<Rightarrow> GreedySynthesizer \<Rightarrow>
     failure + GreedySynthesizer" where
  "greedy_matching_loop std_sort topo currentPrecondition currentPostcondition st =
     (if currentPostcondition = [] then Inr st
      else (case greedy_matching_step std_sort topo currentPrecondition currentPostcondition st of
              Inl e \<Rightarrow> Inl e
            | Inr (post', st') \<Rightarrow>
                greedy_matching_loop std_sort topo currentPrecondition post' st'))"
  by pat_completeness auto
termination
  by (relation "measure (\<lambda>(std_sort, topo, P, Q, st). chunkTotal Q)")
    (auto dest: greedy_matching_step_chunkTotal)

declare greedy_matching_loop.simps [simp del]

definition greedy_linkChunkMatching ::
  "Sorter \<Rightarrow> Topology \<Rightarrow> GreedySynthesizer \<Rightarrow> failure + GreedySynthesizer" where
  "greedy_linkChunkMatching std_sort topo st =
     greedy_matching_loop std_sort topo (precondition st) (postcondition st) st"

definition greedy_scheduleNextEvents :: "Topology \<Rightarrow> GreedySynthesizer \<Rightarrow> GreedySynthesizer" where
  "greedy_scheduleNextEvents topo st =
     st\<lparr>eventQueue :=
          fold (\<lambda>linkDelay q. schedule (wrap64 (currentTime st + linkDelay)) q)
            (getDistinctLinkDelays topo) (eventQueue st)\<rparr>"

definition greedy_synthesisCompleted :: "GreedySynthesizer \<Rightarrow> bool" where
  "greedy_synthesisCompleted st = (postcondition st = [])"

text \<open>
  The constructor, after \<^verbatim>\<open>topology->setChunkSize\<close> (the topology of the model already
  holds the delay table).
\<close>

definition GreedySynthesizer_new ::
  "Topology \<Rightarrow> Collective \<Rightarrow> RandomEngine \<Rightarrow> GreedySynthesizer" where
  "GreedySynthesizer_new topo collective g =
     greedy_scheduleNextEvents topo
       \<lparr>eventQueue = EventQueue_new,
        currentTime = getCurrentTime EventQueue_new,
        ten = TimeExpandedNetwork_new topo,
        synthesisResult = SynthesisResult_new topo (getChunksCount collective),
        precondition = getPrecondition collective,
        postcondition = getPostcondition collective,
        randomEngine = g\<rparr>"

text \<open>
  One pass through the body of the \<^verbatim>\<open>while\<close> loop of \<^verbatim>\<open>synthesize\<close>, up to and including
  \<^verbatim>\<open>linkChunkMatching()\<close>.
\<close>

definition greedy_event ::
  "Sorter \<Rightarrow> Topology \<Rightarrow> GreedySynthesizer \<Rightarrow> failure + GreedySynthesizer" where
  "greedy_event std_sort topo st =
     (let (t, q) = pop (eventQueue st);
          st1 = st\<lparr>eventQueue := q, currentTime := t\<rparr>;
          st2 = st1\<lparr>ten := updateCurrentTime topo (currentTime st1) (ten st1)\<rparr>
      in greedy_linkChunkMatching std_sort topo st2)"

text \<open>
  The \<^verbatim>\<open>while\<close> loop of \<^verbatim>\<open>synthesize\<close>, for at most \<open>n\<close> passes: the state reached, and
  whether the loop has been left (the queue ran empty, or the synthesis completed).
\<close>

fun greedy_run ::
  "nat \<Rightarrow> Sorter \<Rightarrow> Topology \<Rightarrow> GreedySynthesizer \<Rightarrow> failure + (bool \<times> GreedySynthesizer)" where
  "greedy_run 0 std_sort topo st = Inr (False, st)"
| "greedy_run (Suc n) std_sort topo st =
     (if empty_queue (eventQueue st) then Inr (True, st)
      else (case greedy_event std_sort topo st of
              Inl e \<Rightarrow> Inl e
            | Inr st' \<Rightarrow>
                if greedy_synthesisCompleted st' then Inr (True, st')
                else greedy_run n std_sort topo (greedy_scheduleNextEvents topo st')))"

definition greedy_synthesize ::
  "nat \<Rightarrow> Sorter \<Rightarrow> Topology \<Rightarrow> GreedySynthesizer \<Rightarrow> failure + SynthesisResult" where
  "greedy_synthesize fuel std_sort topo st =
     (case greedy_run fuel std_sort topo st of
        Inl e \<Rightarrow> Inl e
      | Inr (False, st') \<Rightarrow> Inl OutOfFuel
      | Inr (True, st') \<Rightarrow> Inr (setCollectiveTime (currentTime st') (synthesisResult st')))"

section \<open>Beam synthesizer\<close>

text \<open>
  The beam synthesizer keeps one time-expanded network, precondition, postcondition and
  result per beam, in four vectors indexed by the beam, and shares the event queue, the
  current time and the random engine. Its \<^verbatim>\<open>markLinkChunkMatch\<close> calls the three-argument
  \<^verbatim>\<open>SynthesisResult::markLinkChunkMatch(chunk, src, dest)\<close>, an overload that is not among the
  sources: it is the parameter \<open>mark\<close> of the model. The beam never calls
  \<^verbatim>\<open>markLinkOccupied\<close>.
\<close>

type_synonym ResultMarker = "ChunkID \<Rightarrow> NpuID \<Rightarrow> NpuID \<Rightarrow> SynthesisResult \<Rightarrow> SynthesisResult"

record BeamSynthesizer =
  b_eventQueue :: EventQueue
  b_currentTime :: Time
  beam_tens :: "TimeExpandedNetwork list"
  beam_preconditions :: "Precondition list"
  beam_postconditions :: "Postcondition list"
  beam_results :: "SynthesisResult list"
  b_randomEngine :: RandomEngine

definition beam_selectSourceNpu ::
  "RandomEngine \<Rightarrow> NpuID list \<Rightarrow> failure + (NpuID \<times> RandomEngine)" where
  "beam_selectSourceNpu g candidateSourceNpus =
     (if length candidateSourceNpus = 1 then Inr (hd candidateSourceNpus, g)
      else if candidateSourceNpus = [] then Inl UndefinedBehaviour
      else
        let (randomSrcIdx, g') = uniform_int g (length candidateSourceNpus)
        in Inr (candidateSourceNpus ! randomSrcIdx, g'))"

definition beam_markLinkChunkMatch ::
  "ResultMarker \<Rightarrow> NpuID \<Rightarrow> NpuID \<Rightarrow> ChunkID \<Rightarrow> nat \<Rightarrow> BeamSynthesizer \<Rightarrow> BeamSynthesizer" where
  "beam_markLinkChunkMatch mark src dest chunk beam_index st =
     st\<lparr>beam_results :=
          (beam_results st)[beam_index := mark chunk src dest (beam_results st ! beam_index)],
        beam_preconditions :=
          (beam_preconditions st)
            [beam_index := insertChunk dest chunk (beam_preconditions st ! beam_index)],
        beam_postconditions :=
          (beam_postconditions st)
            [beam_index := eraseChunk dest chunk (beam_postconditions st ! beam_index)]\<rparr>"

definition beam_matching_step ::
  "ResultMarker \<Rightarrow> Topology \<Rightarrow> nat \<Rightarrow> Precondition \<Rightarrow> Postcondition \<Rightarrow> BeamSynthesizer \<Rightarrow>
     failure + (Postcondition \<times> BeamSynthesizer)" where
  "beam_matching_step mark topo beam_index currentPrecondition currentPostcondition st =
     (case selectPostcondition (b_randomEngine st) currentPostcondition of
        Inl e \<Rightarrow> Inl e
      | Inr ((dest, chunk), post', g') \<Rightarrow>
          let st1 = st\<lparr>b_randomEngine := g'\<rparr>;
              sourceNpus = backtrackTEN topo (beam_tens st1 ! beam_index) dest
          in (case checkCandidateSourceNpus chunk currentPrecondition sourceNpus of
                Inl e \<Rightarrow> Inl e
              | Inr candidateSourceNpus \<Rightarrow>
                  if candidateSourceNpus = [] then Inr (post', st1)
                  else (case beam_selectSourceNpu (b_randomEngine st1) candidateSourceNpus of
                          Inl e \<Rightarrow> Inl e
                        | Inr (src, g'') \<Rightarrow>
                            Inr (post',
                                 beam_markLinkChunkMatch mark src dest chunk beam_index
                                   (st1\<lparr>b_randomEngine := g''\<rparr>)))))"

lemma beam_matching_step_chunkTotal:
  "beam_matching_step mark topo i P Q st = Inr (Q', st') \<Longrightarrow> chunkTotal Q' < chunkTotal Q"
  by (auto simp: beam_matching_step_def Let_def dest!: selectPostcondition_chunkTotal
      split: sum.splits prod.splits if_splits)

function beam_matching_loop ::
  "ResultMarker \<Rightarrow> Topology \<Rightarrow> nat \<Rightarrow> Precondition \<Rightarrow> Postcondition \<Rightarrow> BeamSynthesizer \<Rightarrow>
     failure + BeamSynthesizer" where
  "beam_matching_loop mark topo beam_index currentPrecondition currentPostcondition st =
     (if currentPostcondition = [] then Inr st
      else (case beam_matching_step mark topo beam_index currentPrecondition
                   currentPostcondition st of
              Inl e \<Rightarrow> Inl e
            | Inr (post', st') \<Rightarrow>
                beam_matching_loop mark topo beam_index currentPrecondition post' st'))"
  by pat_completeness auto
termination
  by (relation "measure (\<lambda>(mark, topo, i, P, Q, st). chunkTotal Q)")
    (auto dest: beam_matching_step_chunkTotal)

declare beam_matching_loop.simps [simp del]

definition beam_linkChunkMatching ::
  "ResultMarker \<Rightarrow> Topology \<Rightarrow> nat \<Rightarrow> BeamSynthesizer \<Rightarrow> failure + BeamSynthesizer" where
  "beam_linkChunkMatching mark topo beam_index st =
     beam_matching_loop mark topo beam_index (beam_preconditions st ! beam_index)
       (beam_postconditions st ! beam_index) st"

definition beam_synthesisCompleted :: "BeamSynthesizer \<Rightarrow> nat \<Rightarrow> bool" where
  "beam_synthesisCompleted st beam_index = (beam_postconditions st ! beam_index = [])"

definition beam_scheduleNextEvents :: "Topology \<Rightarrow> BeamSynthesizer \<Rightarrow> BeamSynthesizer" where
  "beam_scheduleNextEvents topo st =
     st\<lparr>b_eventQueue :=
          fold (\<lambda>linkDelay q. schedule (wrap64 (b_currentTime st + linkDelay)) q)
            (getDistinctLinkDelays topo) (b_eventQueue st)\<rparr>"

definition BeamSynthesizer_new ::
  "Topology \<Rightarrow> Collective \<Rightarrow> nat \<Rightarrow> RandomEngine \<Rightarrow> BeamSynthesizer" where
  "BeamSynthesizer_new topo collective num_beams g =
     beam_scheduleNextEvents topo
       \<lparr>b_eventQueue = EventQueue_new,
        b_currentTime = getCurrentTime EventQueue_new,
        beam_tens = replicate num_beams (TimeExpandedNetwork_new topo),
        beam_preconditions = replicate num_beams (getPrecondition collective),
        beam_postconditions = replicate num_beams (getPostcondition collective),
        beam_results = replicate num_beams (SynthesisResult_new topo (getChunksCount collective)),
        b_randomEngine = g\<rparr>"

text \<open>The body of the \<^verbatim>\<open>for\<close> loop over the beams, inside the \<^verbatim>\<open>while\<close> loop.\<close>

definition beam_body ::
  "ResultMarker \<Rightarrow> Topology \<Rightarrow> nat \<Rightarrow> BeamSynthesizer \<Rightarrow> failure + BeamSynthesizer" where
  "beam_body mark topo i st =
     (if \<not> beam_synthesisCompleted st i
      then beam_linkChunkMatching mark topo i
             (st\<lparr>beam_tens :=
                   (beam_tens st)[i := updateCurrentTime topo (b_currentTime st) (beam_tens st ! i)]\<rparr>)
      else if getCollectiveTime (beam_results st ! i) = 0
      then Inr (st\<lparr>beam_results :=
                     (beam_results st)[i := setCollectiveTime (b_currentTime st) (beam_results st ! i)]\<rparr>)
      else Inr st)"

fun beam_for ::
  "ResultMarker \<Rightarrow> Topology \<Rightarrow> nat list \<Rightarrow> BeamSynthesizer \<Rightarrow> failure + BeamSynthesizer" where
  "beam_for mark topo [] st = Inr st"
| "beam_for mark topo (i # rest) st =
     (case beam_body mark topo i st of
        Inl e \<Rightarrow> Inl e
      | Inr st' \<Rightarrow> beam_for mark topo rest st')"

text \<open>
  One pass through the body of the \<^verbatim>\<open>while\<close> loop of \<^verbatim>\<open>synthesize\<close>, up to the end of the
  \<^verbatim>\<open>for\<close> loop over the beams.
\<close>

definition beam_event ::
  "ResultMarker \<Rightarrow> Topology \<Rightarrow> nat \<Rightarrow> BeamSynthesizer \<Rightarrow> failure + BeamSynthesizer" where
  "beam_event mark topo num_beams st =
     (let (t, q) = pop (b_eventQueue st)
      in beam_for mark topo [0..<num_beams] (st\<lparr>b_eventQueue := q, b_currentTime := t\<rparr>))"

definition beam_allCompleted :: "nat \<Rightarrow> BeamSynthesizer \<Rightarrow> bool" where
  "beam_allCompleted num_beams st = list_all (beam_synthesisCompleted st) [0..<num_beams]"

fun beam_run ::
  "nat \<Rightarrow> ResultMarker \<Rightarrow> Topology \<Rightarrow> nat \<Rightarrow> BeamSynthesizer \<Rightarrow>
     failure + (bool \<times> BeamSynthesizer)" where
  "beam_run 0 mark topo num_beams st = Inr (False, st)"
| "beam_run (Suc n) mark topo num_beams st =
     (if empty_queue (b_eventQueue st) then Inr (True, st)
      else (case beam_event mark topo num_beams st of
              Inl e \<Rightarrow> Inl e
            | Inr st' \<Rightarrow>
                if beam_allCompleted num_beams st' then Inr (True, st')
                else beam_run n mark topo num_beams (beam_scheduleNextEvents topo st')))"

text \<open>The loop after the \<^verbatim>\<open>while\<close> loop: a collective time still 0 is set to the current time.\<close>

definition beam_finish :: "nat \<Rightarrow> BeamSynthesizer \<Rightarrow> BeamSynthesizer" where
  "beam_finish num_beams st =
     fold (\<lambda>i s. if getCollectiveTime (beam_results s ! i) = 0
                 then s\<lparr>beam_results :=
                          (beam_results s)[i := setCollectiveTime (b_currentTime s) (beam_results s ! i)]\<rparr>
                 else s)
       [0..<num_beams] st"

text \<open>
  \<^verbatim>\<open>std::min_element\<close> with the comparator \<^verbatim>\<open>a.getCollectiveTime() < b.getCollectiveTime()\<close>:
  the first smallest element, or the end iterator (here \<open>None\<close>) of an empty range.
\<close>

fun min_element_from :: "SynthesisResult \<Rightarrow> SynthesisResult list \<Rightarrow> SynthesisResult" where
  "min_element_from smallest [] = smallest"
| "min_element_from smallest (x # xs) =
     (if getCollectiveTime x < getCollectiveTime smallest then min_element_from x xs
      else min_element_from smallest xs)"

definition min_element :: "SynthesisResult list \<Rightarrow> SynthesisResult option" where
  "min_element xs = (case xs of [] \<Rightarrow> None | x # rest \<Rightarrow> Some (min_element_from x rest))"

definition beam_synthesize ::
  "nat \<Rightarrow> ResultMarker \<Rightarrow> Topology \<Rightarrow> nat \<Rightarrow> BeamSynthesizer \<Rightarrow> failure + SynthesisResult" where
  "beam_synthesize fuel mark topo num_beams st =
     (case beam_run fuel mark topo num_beams st of
        Inl e \<Rightarrow> Inl e
      | Inr (False, st') \<Rightarrow> Inl OutOfFuel
      | Inr (True, st') \<Rightarrow>
          (case min_element (beam_results (beam_finish num_beams st')) of
             None \<Rightarrow> Inl UndefinedBehaviour
           | Some r \<Rightarrow> Inr r))"

section \<open>Collective: the stored conditions and their getters\<close>

text \<open>
  \<^verbatim>\<open>Collective\<close> stores \<^verbatim>\<open>precondition\<close>, a
  \<^verbatim>\<open>std::map<NpuID, std::set<std::tuple<ChunkID, Time>>>\<close>, and \<^verbatim>\<open>postcondition\<close>, a
  \<^verbatim>\<open>std::map<NpuID, std::set<ChunkID>>\<close>; both getters return by value. Whether a caller
  who changes what a getter returned changes the collective is a question of object identity,
  so this part of the model has a store: objects live at addresses, the two members of a
  collective are objects of the store, and returning by value copy-constructs a new object
  for the caller.
\<close>

type_synonym address = nat
type_synonym CollectivePrecondition = "NpuID \<rightharpoonup> (ChunkID \<times> Time) set"
type_synonym CollectivePostcondition = "NpuID \<rightharpoonup> ChunkID set"

datatype object =
  PreconditionObj CollectivePrecondition
| PostconditionObj CollectivePostcondition

record store =
  objects :: "address \<rightharpoonup> object"
  next_address :: address

record CollectiveObject =
  co_npusCount :: int
  co_chunksCount :: int
  co_chunks :: "ChunkID set"
  precondition_at :: address
  postcondition_at :: address

definition allocate :: "object \<Rightarrow> store \<Rightarrow> address \<times> store" where
  "allocate v h =
     (next_address h,
      h\<lparr>objects := (objects h)(next_address h \<mapsto> v), next_address := Suc (next_address h)\<rparr>)"

text \<open>A write through a handle: the object at the address gets a new value.\<close>

definition write_object :: "address \<Rightarrow> object \<Rightarrow> store \<Rightarrow> store" where
  "write_object a v h = h\<lparr>objects := (objects h)(a \<mapsto> v)\<rparr>"

definition Collective_new :: "int \<Rightarrow> store \<Rightarrow> CollectiveObject \<times> store" where
  "Collective_new n h =
     (let (pa, h1) = allocate (PreconditionObj (fold (\<lambda>i m. m(i \<mapsto> {})) [0..n - 1] Map.empty)) h;
          (qa, h2) = allocate (PostconditionObj (fold (\<lambda>i m. m(i \<mapsto> {})) [0..n - 1] Map.empty)) h1
      in (\<lparr>co_npusCount = n, co_chunksCount = 0, co_chunks = {},
           precondition_at = pa, postcondition_at = qa\<rparr>, h2))"

text \<open>
  \<^verbatim>\<open>add\<close>: \<^verbatim>\<open>precondition[src].emplace(chunkID, 0); postcondition[dest].insert(chunkID)\<close>.
\<close>

definition Collective_add ::
  "ChunkID \<Rightarrow> NpuID \<Rightarrow> NpuID \<Rightarrow> CollectiveObject \<Rightarrow> store \<Rightarrow> CollectiveObject \<times> store" where
  "Collective_add chunkID src dest c h =
     (let h1 = (case objects h (precondition_at c) of
                  Some (PreconditionObj P) \<Rightarrow>
                    write_object (precondition_at c)
                      (PreconditionObj
                         (P(src \<mapsto> insert (chunkID, 0) (case P src of None \<Rightarrow> {} | Some S \<Rightarrow> S)))) h
                | _ \<Rightarrow> h);
          h2 = (case objects h1 (postcondition_at c) of
                  Some (PostconditionObj Q) \<Rightarrow>
                    write_object (postcondition_at c)
                      (PostconditionObj
                         (Q(dest \<mapsto> insert chunkID (case Q dest of None \<Rightarrow> {} | Some S \<Rightarrow> S)))) h1
                | _ \<Rightarrow> h1)
      in (c\<lparr>co_chunks := insert chunkID (co_chunks c)\<rparr>, h2))"

text \<open>
  \<^verbatim>\<open>return precondition;\<close> in a function whose return type is the map itself: the caller
  receives a new object holding a copy.
\<close>

definition Collective_getPrecondition :: "CollectiveObject \<Rightarrow> store \<Rightarrow> (address \<times> store) option" where
  "Collective_getPrecondition c h =
     (case objects h (precondition_at c) of
        None \<Rightarrow> None
      | Some v \<Rightarrow> Some (allocate v h))"

definition Collective_getPostcondition :: "CollectiveObject \<Rightarrow> store \<Rightarrow> (address \<times> store) option" where
  "Collective_getPostcondition c h =
     (case objects h (postcondition_at c) of
        None \<Rightarrow> None
      | Some v \<Rightarrow> Some (allocate v h))"

text \<open>The members of the collective are objects of the store that have been allocated.\<close>

definition collective_in_store :: "CollectiveObject \<Rightarrow> store \<Rightarrow> bool" where
  "collective_in_store c h =
     (precondition_at c < next_address h \<and> postcondition_at c < next_address h \<and>
      precondition_at c \<noteq> postcondition_at c \<and>
      objects h (precondition_at c) \<noteq> None \<and> objects h (postcondition_at c) \<noteq> None)"

section \<open>Example inputs\<close>

text \<open>
  Two NPUs with one link each way, of different delays; three NPUs in a one-way ring of equal
  delays; three NPUs where NPU 2 is reached from NPU 0 and from NPU 1 by links of equal delay;
  eighteen NPUs where NPU 17 is reached from each of the NPUs 0 to 16 by a link of the same
  delay. The collectives are All-Gathers with one chunk per NPU (NPU \<open>i\<close> holds chunk \<open>i\<close>
  and needs the others).
\<close>

definition pair_topology :: Topology where
  "pair_topology =
     \<lparr>npusCount = 2,
      connected = (\<lambda>s d. (s = 0 \<and> d = 1) \<or> (s = 1 \<and> d = 0)),
      linkDelays = (\<lambda>s d. if s = 0 \<and> d = 1 then 10 else if s = 1 \<and> d = 0 then 20
                           else 18446744073709551615),
      distinctLinkDelays = [10, 20]\<rparr>"

definition pair_collective :: Collective where
  "pair_collective =
     \<lparr>chunksCount = 2,
      precondition0 = [0 \<mapsto> {0}, 1 \<mapsto> {1}],
      postcondition0 = [(0, [1]), (1, [0])]\<rparr>"

definition ring_topology :: Topology where
  "ring_topology =
     \<lparr>npusCount = 3,
      connected = (\<lambda>s d. (s = 0 \<and> d = 1) \<or> (s = 1 \<and> d = 2) \<or> (s = 2 \<and> d = 0)),
      linkDelays = (\<lambda>s d. if (s = 0 \<and> d = 1) \<or> (s = 1 \<and> d = 2) \<or> (s = 2 \<and> d = 0) then 10
                           else 18446744073709551615),
      distinctLinkDelays = [10]\<rparr>"

definition ring_collective :: Collective where
  "ring_collective =
     \<lparr>chunksCount = 3,
      precondition0 = [0 \<mapsto> {0}, 1 \<mapsto> {1}, 2 \<mapsto> {2}],
      postcondition0 = [(0, [1, 2]), (1, [0, 2]), (2, [0, 1])]\<rparr>"

definition fan_topology :: Topology where
  "fan_topology =
     \<lparr>npusCount = 3,
      connected = (\<lambda>s d. (s = 0 \<or> s = 1) \<and> d = 2),
      linkDelays = (\<lambda>s d. if (s = 0 \<or> s = 1) \<and> d = 2 then 5 else 18446744073709551615),
      distinctLinkDelays = [5]\<rparr>"

definition star_topology :: Topology where
  "star_topology =
     \<lparr>npusCount = 18,
      connected = (\<lambda>s d. 0 \<le> s \<and> s \<le> 16 \<and> d = 17),
      linkDelays = (\<lambda>s d. if 0 \<le> s \<and> s \<le> 16 \<and> d = 17 then 5 else 18446744073709551615),
      distinctLinkDelays = [5]\<rparr>"

definition zero_engine :: RandomEngine where
  "zero_engine = (\<lambda>i. 0)"

text \<open>
  A sort that keeps the promise of \<^verbatim>\<open>std::sort\<close> for the comparator of
  \<^verbatim>\<open>selectSourceNpu\<close>: an insertion sort that keeps equal delays in their order of arrival.
\<close>

definition stable_sort_desc :: Sorter where
  "stable_sort_desc xs = Inr (sort_key (\<lambda>p. - int (snd p)) xs)"

text \<open>A three-argument result marker for the beam examples: it logs the match without times.\<close>

definition plain_marker :: ResultMarker where
  "plain_marker chunk src dest sr = result_markLinkChunkMatch chunk src dest 0 0 sr"

text \<open>
  What the specification says \<^verbatim>\<open>selectSourceNpu\<close> returns: the only candidate, or the
  element at index 1 of the candidates sorted by descending link delay with ties in NPU id
  order (a stable sort by delay of the candidates sorted by id).
\<close>

definition spec_selectSourceNpu :: "Topology \<Rightarrow> NpuID list \<Rightarrow> NpuID \<Rightarrow> NpuID" where
  "spec_selectSourceNpu topo candidateSourceNpus dest =
     (if length candidateSourceNpus = 1 then hd candidateSourceNpus
      else fst (sort_key (\<lambda>p. - int (snd p))
                  (sort_key fst (map (\<lambda>src. (src, getLinkDelay topo src dest)) candidateSourceNpus))
                ! 1))"

text \<open>The chunks an NPU holds, and the chunks it still requires.\<close>

definition held :: "Precondition \<Rightarrow> NpuID \<Rightarrow> ChunkID set" where
  "held P n = (case P n of None \<Rightarrow> {} | Some S \<Rightarrow> S)"

definition required :: "Postcondition \<Rightarrow> NpuID \<Rightarrow> ChunkID set" where
  "required Q n = (case map_of Q n of None \<Rightarrow> {} | Some cs \<Rightarrow> set cs)"

text \<open>
  The bookkeeping of the greedy synthesizer that keeps transmissions on one link apart: every
  recorded arrival on a link plus the link's delay is at most the link's busy-until time;
  the arrivals recorded on a link are spaced by at least its delay; a link marked available
  is free at the network's current time (a pair the time update never visits is available
  only while it has never been occupied); and the network's clock is the synthesizer's.
\<close>

definition link_invariant :: "Topology \<Rightarrow> GreedySynthesizer \<Rightarrow> bool" where
  "link_invariant topo st =
     ((\<forall>s d. \<forall>e \<in> set (egressOf (synthesisResult st) s d).
         fst (snd e) + getLinkDelay topo s d \<le> linkBusyUntil (ten st) s d) \<and>
      (\<forall>s d. sorted_wrt (\<lambda>e e'. fst (snd e) + getLinkDelay topo s d \<le> fst (snd e'))
                (egressOf (synthesisResult st) s d)) \<and>
      (\<forall>s d. linkAvailable (ten st) s d \<longrightarrow>
         (if inRange topo s \<and> inRange topo d \<and> isConnected topo s d
          then linkBusyUntil (ten st) s d \<le> ten_currentTime (ten st)
          else linkBusyUntil (ten st) s d = 0)) \<and>
      ten_currentTime (ten st) = currentTime st)"



text \<open>
  Notions for the beam synthesizer. The (destination, chunk) pairs of a postcondition; the
  pairs that can be served at an event (some NPU with a free link into the destination holds
  the chunk in the snapshot); the precondition and the postcondition after a set of pairs
  has been matched. A time-expanded network on which no link was ever occupied is idle. The
  beams are in lockstep when they all hold the same conditions, their networks are idle and
  no collective time has been set.
\<close>

definition pairsOf :: "Postcondition \<Rightarrow> (NpuID \<times> ChunkID) set" where
  "pairsOf Q = {(d, c). \<exists>cs. (d, cs) \<in> set Q \<and> c \<in> set cs}"

definition distinct_condition :: "Postcondition \<Rightarrow> bool" where
  "distinct_condition Q = (distinct (map fst Q) \<and> (\<forall>e \<in> set Q. distinct (snd e)))"

definition deliverable ::
  "Topology \<Rightarrow> TimeExpandedNetwork \<Rightarrow> Precondition \<Rightarrow> NpuID \<times> ChunkID \<Rightarrow> bool" where
  "deliverable topo t P = (\<lambda>(d, c). \<exists>s \<in> set (backtrackTEN topo t d). c \<in> held P s)"

definition matchedPairs ::
  "Topology \<Rightarrow> TimeExpandedNetwork \<Rightarrow> Precondition \<Rightarrow> Postcondition \<Rightarrow> (NpuID \<times> ChunkID) set" where
  "matchedPairs topo t P Q = {p \<in> pairsOf Q. deliverable topo t P p}"

definition deposit :: "(NpuID \<times> ChunkID) set \<Rightarrow> Precondition \<Rightarrow> Precondition" where
  "deposit M P = (\<lambda>n. if \<exists>c. (n, c) \<in> M then Some (held P n \<union> {c. (n, c) \<in> M}) else P n)"

definition prune :: "(NpuID \<times> ChunkID) set \<Rightarrow> Postcondition \<Rightarrow> Postcondition" where
  "prune M Q =
     filter (\<lambda>(d, cs). \<not> (cs = [] \<and> (\<exists>c. (d, c) \<in> M)))
       (map (\<lambda>(d, cs). (d, filter (\<lambda>c. (d, c) \<notin> M) cs)) Q)"

definition idle :: "TimeExpandedNetwork \<Rightarrow> bool" where
  "idle t = (linkBusyUntil t = (\<lambda>s d. 0) \<and> linkAvailable t = (\<lambda>s d. True))"

definition in_lockstep :: "nat \<Rightarrow> Precondition \<Rightarrow> Postcondition \<Rightarrow> BeamSynthesizer \<Rightarrow> bool" where
  "in_lockstep K P Q st =
     (beam_preconditions st = replicate K P \<and> beam_postconditions st = replicate K Q \<and>
      length (beam_tens st) = K \<and> (\<forall>t \<in> set (beam_tens st). idle t) \<and>
      length (beam_results st) = K \<and>
      (\<forall>r \<in> set (beam_results st). getCollectiveTime r = 0) \<and>
      distinct_condition Q)"

text \<open>The three-argument result marker leaves the collective time alone.\<close>

definition marker_keeps_time :: "ResultMarker \<Rightarrow> bool" where
  "marker_keeps_time mark =
     (\<forall>chunk src dest sr. getCollectiveTime (mark chunk src dest sr) = getCollectiveTime sr)"

section \<open>Results about NpuResult\<close>

lemma initLinks_fields [simp]:
  "npu (initLinks topo n dest r) = npu r"
  "nr_npusCount (initLinks topo n dest r) = nr_npusCount r"
  "nr_chunksCount (initLinks topo n dest r) = nr_chunksCount r"
  "dependencyInfo (initLinks topo n dest r) = dependencyInfo r"
  by (simp_all add: initLinks_def Let_def)

lemma initLinks_ingress:
  "ingressLinksInfo (initLinks topo n dest r) =
     (if n \<noteq> dest \<and> connected topo dest n then (ingressLinksInfo r)(dest \<mapsto> [])
      else ingressLinksInfo r)"
  by (simp add: initLinks_def Let_def isConnected_def)

lemma initLinks_egress:
  "egressLinksInfo (initLinks topo n dest r) =
     (if n \<noteq> dest \<and> connected topo n dest then (egressLinksInfo r)(dest \<mapsto> [])
      else egressLinksInfo r)"
  by (simp add: initLinks_def Let_def isConnected_def)

lemma fold_initLinks_npusCount [simp]:
  "nr_npusCount (fold (initLinks topo n) ds r) = nr_npusCount r"
  by (induction ds arbitrary: r) simp_all

lemma fold_initLinks_ingress:
  "ingressLinksInfo (fold (initLinks topo n) ds r) p =
     (if p \<in> set ds \<and> n \<noteq> p \<and> connected topo p n then Some []
      else ingressLinksInfo r p)"
  by (induction ds arbitrary: r) (auto simp: initLinks_ingress)

lemma fold_initLinks_egress:
  "egressLinksInfo (fold (initLinks topo n) ds r) p =
     (if p \<in> set ds \<and> n \<noteq> p \<and> connected topo n p then Some []
      else egressLinksInfo r p)"
  by (induction ds arbitrary: r) (auto simp: initLinks_egress)

lemma fold_dependency_links [simp]:
  "ingressLinksInfo
     (fold (\<lambda>chunk r. r\<lparr>dependencyInfo := (dependencyInfo r)(chunk \<mapsto> None)\<rparr>) cs r) =
   ingressLinksInfo r"
  "egressLinksInfo
     (fold (\<lambda>chunk r. r\<lparr>dependencyInfo := (dependencyInfo r)(chunk \<mapsto> None)\<rparr>) cs r) =
   egressLinksInfo r"
  "nr_npusCount
     (fold (\<lambda>chunk r. r\<lparr>dependencyInfo := (dependencyInfo r)(chunk \<mapsto> None)\<rparr>) cs r) =
   nr_npusCount r"
  by (induction cs arbitrary: r) simp_all

lemma NpuResult_new_npusCount [simp]:
  "nr_npusCount (NpuResult_new n topo chunks) = npusCount topo"
  by (simp add: NpuResult_new_def Let_def)

lemma NpuResult_new_ingress:
  "ingressLinksInfo (NpuResult_new n topo chunks) p =
     (if 0 \<le> p \<and> p < npusCount topo \<and> n \<noteq> p \<and> connected topo p n then Some [] else None)"
  by (auto simp: NpuResult_new_def Let_def fold_initLinks_ingress)

lemma NpuResult_new_egress:
  "egressLinksInfo (NpuResult_new n topo chunks) p =
     (if 0 \<le> p \<and> p < npusCount topo \<and> n \<noteq> p \<and> connected topo n p then Some [] else None)"
  by (auto simp: NpuResult_new_def Let_def fold_initLinks_egress)

text \<open>
  C10. For a peer in range, both getters return a list and never fail: the stored list when
  the peer has an entry, the empty list when it has none. The constructor creates an ingress
  (egress) entry only for a peer with a connected link into (out of) this NPU, so a freshly
  constructed result without such a link has no entry for the peer and the getter returns the
  empty list.
\<close>

theorem getLinkInfo_in_range_never_fails:
  assumes "0 \<le> peer" and "peer < nr_npusCount r"
  shows "getIngressLinkInfo r peer =
           Inr (case ingressLinksInfo r peer of None \<Rightarrow> [] | Some l \<Rightarrow> l) \<and>
         getEgressLinkInfo r peer =
           Inr (case egressLinksInfo r peer of None \<Rightarrow> [] | Some l \<Rightarrow> l) \<and>
         (r = NpuResult_new n topo chunks \<and> \<not> isConnected topo peer n \<longrightarrow>
            ingressLinksInfo r peer = None \<and> getIngressLinkInfo r peer = Inr []) \<and>
         (r = NpuResult_new n topo chunks \<and> \<not> isConnected topo n peer \<longrightarrow>
            egressLinksInfo r peer = None \<and> getEgressLinkInfo r peer = Inr [])"
  using assms
  by (auto simp: getIngressLinkInfo_def getEgressLinkInfo_def map_at_def isConnected_def
      NpuResult_new_ingress NpuResult_new_egress split: option.splits)

theorem getLinkInfo_in_range_never_fails_witness:
  "(0::int) \<le> 1 \<and> 1 < nr_npusCount (NpuResult_new 0 fan_topology 3) \<and>
   \<not> isConnected fan_topology 1 0 \<and> \<not> isConnected fan_topology 0 1 \<and>
   getIngressLinkInfo (NpuResult_new 0 fan_topology 3) 1 = Inr [] \<and>
   getEgressLinkInfo (NpuResult_new 0 fan_topology 3) 1 = Inr []"
proof -
  have range: "(0::int) \<le> 1" "1 < nr_npusCount (NpuResult_new 0 fan_topology 3)"
    by (simp_all add: fan_topology_def)
  have unconnected: "\<not> isConnected fan_topology 1 0" "\<not> isConnected fan_topology 0 1"
    by (simp_all add: isConnected_def fan_topology_def)
  from getLinkInfo_in_range_never_fails [OF range, of 0 fan_topology 3] unconnected range
  show ?thesis by simp
qed

section \<open>Results about the conditions\<close>

lemma held_insertChunk:
  "held (insertChunk dest chunk P) n = (if n = dest then insert chunk (held P dest) else held P n)"
  by (simp add: held_def insertChunk_def)

lemma insertChunk_other: "m \<noteq> dest \<Longrightarrow> insertChunk dest chunk P m = P m"
  by (simp add: insertChunk_def)

lemma removeAll_eq_Nil: "removeAll c cs = [] \<longleftrightarrow> set cs \<subseteq> {c}"
  by (induction cs) auto

lemma keys_eraseChunk: "fst ` set (eraseChunk dest chunk Q) \<subseteq> fst ` set Q"
  by (force simp: eraseChunk_def split: if_splits)

lemma map_of_eraseChunk_absent:
  "k \<notin> fst ` set Q \<Longrightarrow> map_of (eraseChunk dest chunk Q) k = None"
  using keys_eraseChunk [of dest chunk Q] by (auto simp: map_of_eq_None_iff)

lemma eraseChunk_Cons:
  "eraseChunk dest chunk ((d, cs) # Q) =
     (if d = dest then (if removeAll chunk cs = [] then eraseChunk dest chunk Q
                        else (d, removeAll chunk cs) # eraseChunk dest chunk Q)
      else (d, cs) # eraseChunk dest chunk Q)"
  by (simp add: eraseChunk_def)

lemma eraseChunk_Nil [simp]: "eraseChunk dest chunk [] = []"
  by (simp add: eraseChunk_def)

lemma map_of_eraseChunk:
  "distinct (map fst Q) \<Longrightarrow>
   map_of (eraseChunk dest chunk Q) m =
     (if m = dest
      then (case map_of Q dest of
              None \<Rightarrow> None
            | Some cs \<Rightarrow> if removeAll chunk cs = [] then None else Some (removeAll chunk cs))
      else map_of Q m)"
proof (induction Q)
  case Nil
  then show ?case by simp
next
  case (Cons e Q)
  obtain d cs where e: "e = (d, cs)" by (cases e)
  from Cons.prems e have notin: "d \<notin> fst ` set Q" and dist: "distinct (map fst Q)"
    by auto
  show ?case
    using Cons.IH [OF dist] map_of_eraseChunk_absent [OF notin, of dest chunk]
    by (auto simp: e eraseChunk_Cons)
qed

lemma distinct_eraseChunk:
  "distinct (map fst Q) \<Longrightarrow> distinct (map fst (eraseChunk dest chunk Q))"
proof (induction Q)
  case Nil
  then show ?case by simp
next
  case (Cons e Q)
  obtain d cs where e: "e = (d, cs)" by (cases e)
  from Cons.prems e have notin: "d \<notin> fst ` set Q" and dist: "distinct (map fst Q)"
    by auto
  from notin keys_eraseChunk [of dest chunk Q] have "d \<notin> fst ` set (eraseChunk dest chunk Q)"
    by blast
  with Cons.IH [OF dist] show ?case
    by (auto simp: e eraseChunk_Cons)
qed

lemma required_eraseChunk:
  "distinct (map fst Q) \<Longrightarrow>
   required (eraseChunk dest chunk Q) n =
     (if n = dest then required Q dest - {chunk} else required Q n)"
  by (auto simp: required_def map_of_eraseChunk removeAll_eq_Nil split: option.splits)

lemma eraseChunk_key_dropped:
  assumes "distinct (map fst Q)" and "required Q dest - {chunk} = {}"
  shows "dest \<notin> fst ` set (eraseChunk dest chunk Q)"
proof -
  have "map_of (eraseChunk dest chunk Q) dest = None"
  proof (cases "map_of Q dest")
    case None
    with assms(1) show ?thesis by (simp add: map_of_eraseChunk)
  next
    case (Some cs)
    with assms(2) have "set cs \<subseteq> {chunk}"
      by (auto simp: required_def)
    then have "removeAll chunk cs = []"
      by (simp only: removeAll_eq_Nil)
    with Some assms(1) show ?thesis by (simp add: map_of_eraseChunk)
  qed
  then show ?thesis by (simp add: map_of_eq_None_iff)
qed

text \<open>
  C8. A link-chunk match of chunk \<open>c\<close> onto NPU \<open>n\<close>, in the greedy synthesizer and in beam
  \<open>i\<close> of the beam synthesizer: \<open>c\<close> is added to the chunks \<open>n\<close> holds, removed from the
  chunks \<open>n\<close> requires, \<open>n\<close> leaves the postcondition map when nothing remains required, and
  the entries of every other NPU are unchanged.
\<close>

theorem markLinkChunkMatch_moves_chunk:
  assumes "distinct (map fst (postcondition st))"
    and "i < length (beam_postconditions bst)"
    and "length (beam_preconditions bst) = length (beam_postconditions bst)"
    and "distinct (map fst (beam_postconditions bst ! i))"
  shows "held (precondition (greedy_markLinkChunkMatch topo src n c st)) n =
           insert c (held (precondition st) n) \<and>
         required (postcondition (greedy_markLinkChunkMatch topo src n c st)) n =
           required (postcondition st) n - {c} \<and>
         (required (postcondition st) n - {c} = {} \<longrightarrow>
            n \<notin> fst ` set (postcondition (greedy_markLinkChunkMatch topo src n c st))) \<and>
         (\<forall>m. m \<noteq> n \<longrightarrow>
            precondition (greedy_markLinkChunkMatch topo src n c st) m = precondition st m \<and>
            map_of (postcondition (greedy_markLinkChunkMatch topo src n c st)) m =
              map_of (postcondition st) m) \<and>
         held (beam_preconditions (beam_markLinkChunkMatch mark src n c i bst) ! i) n =
           insert c (held (beam_preconditions bst ! i) n) \<and>
         required (beam_postconditions (beam_markLinkChunkMatch mark src n c i bst) ! i) n =
           required (beam_postconditions bst ! i) n - {c} \<and>
         (required (beam_postconditions bst ! i) n - {c} = {} \<longrightarrow>
            n \<notin> fst ` set (beam_postconditions (beam_markLinkChunkMatch mark src n c i bst) ! i)) \<and>
         (\<forall>m. m \<noteq> n \<longrightarrow>
            (beam_preconditions (beam_markLinkChunkMatch mark src n c i bst) ! i) m =
              (beam_preconditions bst ! i) m \<and>
            map_of (beam_postconditions (beam_markLinkChunkMatch mark src n c i bst) ! i) m =
              map_of (beam_postconditions bst ! i) m)"
proof -
  have greedy_pre: "precondition (greedy_markLinkChunkMatch topo src n c st) =
      insertChunk n c (precondition st)"
    and greedy_post: "postcondition (greedy_markLinkChunkMatch topo src n c st) =
      eraseChunk n c (postcondition st)"
    by (simp_all add: greedy_markLinkChunkMatch_def Let_def)
  have beam_pre: "beam_preconditions (beam_markLinkChunkMatch mark src n c i bst) ! i =
      insertChunk n c (beam_preconditions bst ! i)"
    and beam_post: "beam_postconditions (beam_markLinkChunkMatch mark src n c i bst) ! i =
      eraseChunk n c (beam_postconditions bst ! i)"
    using assms(2,3) by (simp_all add: beam_markLinkChunkMatch_def)
  show ?thesis
    unfolding greedy_pre greedy_post beam_pre beam_post
    using assms(1,4)
    by (simp add: held_insertChunk required_eraseChunk eraseChunk_key_dropped
        insertChunk_other map_of_eraseChunk)
qed

theorem markLinkChunkMatch_moves_chunk_witness:
  "distinct (map fst (postcondition (GreedySynthesizer_new pair_topology pair_collective zero_engine))) \<and>
   (0::nat) < length (beam_postconditions
                  (BeamSynthesizer_new pair_topology pair_collective 1 zero_engine)) \<and>
   held (precondition (greedy_markLinkChunkMatch pair_topology 1 0 1
           (GreedySynthesizer_new pair_topology pair_collective zero_engine))) 0 = {0, 1} \<and>
   0 \<notin> fst ` set (postcondition (greedy_markLinkChunkMatch pair_topology 1 0 1
           (GreedySynthesizer_new pair_topology pair_collective zero_engine))) \<and>
   held (beam_preconditions (beam_markLinkChunkMatch plain_marker 1 0 1 0
           (BeamSynthesizer_new pair_topology pair_collective 1 zero_engine)) ! 0) 0 = {0, 1} \<and>
   0 \<notin> fst ` set (beam_postconditions (beam_markLinkChunkMatch plain_marker 1 0 1 0
           (BeamSynthesizer_new pair_topology pair_collective 1 zero_engine)) ! 0)"
proof -
  let ?st = "GreedySynthesizer_new pair_topology pair_collective zero_engine"
  let ?bst = "BeamSynthesizer_new pair_topology pair_collective 1 zero_engine"
  have post: "postcondition ?st = [(0, [1]), (1, [0])]"
    and pre: "precondition ?st = [0 \<mapsto> {0}, 1 \<mapsto> {1}]"
    by (simp_all add: GreedySynthesizer_new_def greedy_scheduleNextEvents_def
        getPostcondition_def getPrecondition_def pair_collective_def)
  have bpost: "beam_postconditions ?bst = [[(0, [1]), (1, [0])]]"
    and bpre: "beam_preconditions ?bst = [[0 \<mapsto> {0}, 1 \<mapsto> {1}]]"
    by (simp_all add: BeamSynthesizer_new_def beam_scheduleNextEvents_def
        getPostcondition_def getPrecondition_def pair_collective_def)
  have h1: "distinct (map fst (postcondition ?st))"
    unfolding post by simp
  have h2: "0 < length (beam_postconditions ?bst)"
    and h3: "length (beam_preconditions ?bst) = length (beam_postconditions ?bst)"
    and h4: "distinct (map fst (beam_postconditions ?bst ! 0))"
    unfolding bpost bpre by simp_all
  from markLinkChunkMatch_moves_chunk [OF h1 h2 h3 h4, of pair_topology 1 0 1 plain_marker]
  have "held (precondition (greedy_markLinkChunkMatch pair_topology 1 0 1 ?st)) 0 =
          insert 1 (held (precondition ?st) 0)"
    and "required (postcondition ?st) 0 - {1} = {} \<longrightarrow>
          0 \<notin> fst ` set (postcondition (greedy_markLinkChunkMatch pair_topology 1 0 1 ?st))"
    and "held (beam_preconditions (beam_markLinkChunkMatch plain_marker 1 0 1 0 ?bst) ! 0) 0 =
          insert 1 (held (beam_preconditions ?bst ! 0) 0)"
    and "required (beam_postconditions ?bst ! 0) 0 - {1} = {} \<longrightarrow>
          0 \<notin> fst ` set (beam_postconditions (beam_markLinkChunkMatch plain_marker 1 0 1 0 ?bst) ! 0)"
    by blast+
  then show ?thesis
    using h1 h2 unfolding post pre bpost bpre
    by (simp add: held_def required_def insert_commute)
qed

section \<open>Results about the greedy source selection\<close>

lemma std_sort_contract_Inr:
  assumes "std_sort_contract std_sort"
  obtains ys where "std_sort xs = Inr ys" and "mset ys = mset xs"
    and "sorted_wrt (\<lambda>a b. snd b \<le> snd a) ys"
  using assms unfolding std_sort_contract_def by blast

lemma stable_sort_desc_contract: "std_sort_contract stable_sort_desc"
proof -
  have "sorted_wrt (\<lambda>a b. snd b \<le> snd a) (sort_key (\<lambda>p. - int (snd p)) xs)"
    for xs :: "(NpuID \<times> Time) list"
    using sorted_sort_key [of "\<lambda>p. - int (snd p)" xs] by (simp add: sorted_map)
  then show ?thesis
    by (simp add: std_sort_contract_def stable_sort_desc_def)
qed

lemma sort_key_fst_candidates:
  "sorted cands \<Longrightarrow> sort_key fst (map (\<lambda>src. (src, f src)) cands) = map (\<lambda>src. (src, f src)) cands"
  by (rule sort_key_id_if_sorted) (simp add: comp_def)

subsection \<open>The library sort on at most 16 elements\<close>

text \<open>
  \<^verbatim>\<open>__unguarded_linear_insert\<close> moves the element past the elements at the end of the prefix
  before which it goes, provided the prefix has an element before which it does not go.
\<close>

lemma unguarded_linear_insert_eq:
  "i < length xs \<Longrightarrow> \<exists>y \<in> set (take i xs). \<not> cmp val y \<Longrightarrow>
   unguarded_linear_insert cmp val i xs =
     Inr (rev (dropWhile (cmp val) (rev (take i xs))) @ val #
          rev (takeWhile (cmp val) (rev (take i xs))) @ drop (Suc i) xs)"
proof (induction i arbitrary: xs)
  case 0
  then show ?case by simp
next
  case (Suc n)
  from Suc.prems(1) have n: "n < length xs" by simp
  have prefix: "take (Suc n) xs = take n xs @ [xs ! n]"
    using n by (rule take_Suc_conv_app_nth)
  show ?case
  proof (cases "cmp val (xs ! n)")
    case True
    let ?ys = "xs[Suc n := xs ! n]"
    from Suc.prems(2) True have ex: "\<exists>y \<in> set (take n ?ys). \<not> cmp val y"
      by (auto simp: prefix)
    have rest: "drop (Suc n) ?ys = xs ! n # drop (Suc (Suc n)) xs"
      using Suc.prems(1) by (simp add: drop_update_swap flip: Cons_nth_drop_Suc)
    from Suc.IH [of ?ys, OF _ ex] n True show ?thesis
      by (simp add: prefix rest)
  next
    case False
    then show ?thesis
      using Suc.prems(1) by (simp add: prefix upd_conv_take_nth_drop)
  qed
qed

text \<open>
  One pass through the loop of \<^verbatim>\<open>__insertion_sort\<close> with the comparator of
  \<^verbatim>\<open>selectSourceNpu\<close>, on a prefix that is in descending order of delay.
\<close>

lemma insertion_sort_step_eq:
  fixes xs :: "(NpuID \<times> Time) list"
  assumes "0 < i" and "i < length xs"
    and "sorted_wrt (\<lambda>a b. snd b \<le> snd a) (take i xs)"
  shows "insertion_sort_step (\<lambda>a b. snd b < snd a) 0 i xs =
     Inr (rev (dropWhile (\<lambda>y. snd y < snd (xs ! i)) (rev (take i xs))) @ xs ! i #
          rev (takeWhile (\<lambda>y. snd y < snd (xs ! i)) (rev (take i xs))) @ drop (Suc i) xs)"
proof (cases "snd (xs ! 0) < snd (xs ! i)")
  case True
  from assms(1,2) have "take i xs = xs ! 0 # tl (take i xs)"
    by (cases xs) (auto simp: take_Suc_conv_app_nth gr0_conv_Suc)
  with assms(3) have "sorted_wrt (\<lambda>a b. snd b \<le> snd a) (xs ! 0 # tl (take i xs))"
    by simp
  then have "\<forall>y \<in> set (tl (take i xs)). snd y \<le> snd (xs ! 0)"
    by simp
  with \<open>take i xs = xs ! 0 # tl (take i xs)\<close> have "\<forall>y \<in> set (take i xs). snd y \<le> snd (xs ! 0)"
    by (metis order_refl set_ConsD)
  with True have all: "\<forall>y \<in> set (rev (take i xs)). snd y < snd (xs ! i)"
    by auto
  then have tw: "takeWhile (\<lambda>y. snd y < snd (xs ! i)) (rev (take i xs)) = rev (take i xs)"
    and dw: "dropWhile (\<lambda>y. snd y < snd (xs ! i)) (rev (take i xs)) = []"
    by (simp_all add: takeWhile_eq_all_conv)
  from True show ?thesis
    unfolding tw dw by (simp add: insertion_sort_step_def)
next
  case False
  from assms(1,2) have "xs ! 0 \<in> set (take i xs)"
    by (cases xs) (auto simp: gr0_conv_Suc)
  with False have "\<exists>y \<in> set (take i xs). \<not> snd y < snd (xs ! i)"
    by blast
  from unguarded_linear_insert_eq [of i xs "\<lambda>a b. snd b < snd a" "xs ! i", OF assms(2) this] False
  show ?thesis
    by (simp add: insertion_sort_step_def)
qed

text \<open>
  The element goes behind the elements of a delay at least its own: the result is the
  stable sort by descending delay of the prefix followed by the element.
\<close>

lemma insert_is_stable_sort:
  fixes P0 :: "(NpuID \<times> Time) list"
  defines "f \<equiv> \<lambda>p :: NpuID \<times> Time. - int (snd p)"
  shows "rev (dropWhile (\<lambda>y. snd y < snd val) (rev (sort_key f P0))) @ val #
         rev (takeWhile (\<lambda>y. snd y < snd val) (rev (sort_key f P0))) =
         sort_key f (P0 @ [val])"
proof -
  let ?P = "sort_key f P0"
  define A where "A = rev (dropWhile (\<lambda>y. snd y < snd val) (rev ?P))"
  define B where "B = rev (takeWhile (\<lambda>y. snd y < snd val) (rev ?P))"
  have AB: "A @ B = ?P"
    unfolding A_def B_def by (simp flip: rev_append)
  have B: "\<forall>b \<in> set B. snd b < snd val"
    unfolding B_def by (auto dest: set_takeWhileD)
  have sorted: "sorted (map f (A @ B))"
    unfolding AB by (rule sorted_sort_key)
  have A: "\<forall>a \<in> set A. snd val \<le> snd a"
  proof (cases "A = []")
    case True
    then show ?thesis by simp
  next
    case False
    then obtain a rest where dw: "dropWhile (\<lambda>y. snd y < snd val) (rev ?P) = a # rest"
      unfolding A_def by (cases "dropWhile (\<lambda>y. snd y < snd val) (rev ?P)") auto
    then have a: "\<not> snd a < snd val"
      using hd_dropWhile [of "\<lambda>y. snd y < snd val" "rev ?P"] by auto
    from dw have A': "A = rev rest @ [a]"
      unfolding A_def by simp
    from sorted have "sorted (map f A)"
      by (simp add: sorted_append)
    then have "\<forall>x \<in> set (rev rest). f x \<le> f a"
      unfolding A' by (simp add: sorted_append)
    with a show ?thesis
      unfolding A' f_def by auto
  qed
  have "sort_key f (P0 @ [val]) = A @ val # B"
  proof (rule properties_for_sort_key)
    have "mset (A @ val # B) = mset (A @ B) + {#val#}"
      by simp
    then show "mset (A @ val # B) = mset (P0 @ [val])"
      unfolding AB by simp
  next
    fix k
    have flip: "(\<lambda>x. f k = f x) = (\<lambda>y. f y = f k)"
      by auto
    have "filter (\<lambda>x. f k = f x) (A @ B) = filter (\<lambda>x. f k = f x) P0"
      unfolding AB flip by (rule sort_key_stable)
    then have P: "filter (\<lambda>x. f k = f x) P0 =
        filter (\<lambda>x. f k = f x) A @ filter (\<lambda>x. f k = f x) B"
      by simp
    show "filter (\<lambda>x. f k = f x) (A @ val # B) = filter (\<lambda>x. f k = f x) (P0 @ [val])"
    proof (cases "f k = f val")
      case True
      with B have "filter (\<lambda>x. f k = f x) B = []"
        by (auto simp: filter_empty_conv f_def)
      with True P show ?thesis by simp
    next
      case False
      with P show ?thesis by simp
    qed
  next
    from sorted A B show "sorted (map f (A @ val # B))"
      by (auto simp: sorted_append f_def)
  qed
  then show ?thesis
    by (simp only: A_def B_def)
qed

lemma for_each_append:
  "for_each body (is @ js) xs =
     (case for_each body is xs of Inl e \<Rightarrow> Inl e | Inr ys \<Rightarrow> for_each body js ys)"
  by (induction "is" arbitrary: xs) (auto split: sum.splits)

text \<open>
  \<^verbatim>\<open>__insertion_sort\<close> with the comparator of \<^verbatim>\<open>selectSourceNpu\<close> is the stable sort by
  descending delay.
\<close>

lemma insertion_sort_prefix:
  fixes xs :: "(NpuID \<times> Time) list"
  assumes "0 < n" and "n \<le> length xs"
  shows "for_each (insertion_sort_step (\<lambda>a b. snd b < snd a) 0) [Suc 0..<n] xs =
     Inr (sort_key (\<lambda>p. - int (snd p)) (take n xs) @ drop n xs)"
  using assms
proof (induction n)
  case 0
  then show ?case by simp
next
  case (Suc n)
  let ?f = "\<lambda>p :: NpuID \<times> Time. - int (snd p)"
  show ?case
  proof (cases "n = 0")
    case True
    from Suc.prems obtain x rest where "xs = x # rest"
      by (cases xs) auto
    with True show ?thesis
      by simp
  next
    case False
    with Suc.prems have n: "0 < n" "n < length xs" "n \<le> length xs"
      by simp_all
    let ?S = "sort_key ?f (take n xs)"
    let ?ys = "?S @ drop n xs"
    have len: "length ?S = n"
      using n(3) by simp
    from Suc.IH [OF n(1,3)]
    have before: "for_each (insertion_sort_step (\<lambda>a b. snd b < snd a) 0) [Suc 0..<n] xs = Inr ?ys" .
    have ys: "take n ?ys = ?S" "?ys ! n = xs ! n" "drop (Suc n) ?ys = drop (Suc n) xs"
      "n < length ?ys"
      using n(2) len by (simp_all add: nth_append)
    have "sorted (map ?f ?S)"
      by (rule sorted_sort_key)
    then have "sorted_wrt (\<lambda>a b. snd b \<le> snd a) (take n ?ys)"
      unfolding ys(1) by (simp add: sorted_map)
    from insertion_sort_step_eq [OF n(1) ys(4) this]
    have "insertion_sort_step (\<lambda>a b. snd b < snd a) 0 n ?ys =
        Inr ((rev (dropWhile (\<lambda>y. snd y < snd (xs ! n)) (rev ?S)) @ xs ! n #
              rev (takeWhile (\<lambda>y. snd y < snd (xs ! n)) (rev ?S))) @ drop (Suc n) xs)"
      by (simp only: ys append_assoc append_Cons)
    also have "rev (dropWhile (\<lambda>y. snd y < snd (xs ! n)) (rev ?S)) @ xs ! n #
        rev (takeWhile (\<lambda>y. snd y < snd (xs ! n)) (rev ?S)) = sort_key ?f (take n xs @ [xs ! n])"
      by (rule insert_is_stable_sort)
    also have "take n xs @ [xs ! n] = take (Suc n) xs"
      using n(2) by (simp add: take_Suc_conv_app_nth)
    finally have step: "insertion_sort_step (\<lambda>a b. snd b < snd a) 0 n ?ys =
        Inr (sort_key ?f (take (Suc n) xs) @ drop (Suc n) xs)" .
    from n(1) have "[Suc 0..<Suc n] = [Suc 0..<n] @ [n]"
      by simp
    with before step show ?thesis
      by (simp add: for_each_append)
  qed
qed

text \<open>
  On a vector of at most 16 elements \<^verbatim>\<open>std::sort\<close> does not partition: it is the insertion
  sort, and keeps elements of equal delay in their order.
\<close>

lemma gnu_std_sort_small:
  assumes "length xs \<le> 16"
  shows "gnu_std_sort xs = Inr (sort_key (\<lambda>p. - int (snd p)) xs)"
proof (cases "xs = []")
  case True
  then show ?thesis
    by (simp add: gnu_std_sort_def libstdcxx_sort_def)
next
  case False
  from assms have loop: "introsort_loop cmp 0 (length xs) d xs = Inr xs" for cmp d
    by (cases d) simp_all
  from False have "0 < length xs" by simp
  from insertion_sort_prefix [OF this order_refl] False assms show ?thesis
    by (simp add: gnu_std_sort_def libstdcxx_sort_def loop final_insertion_sort_def
        insertion_sort_def)
qed

text \<open>
  C1, for the sort of the library and at most 16 candidates. The candidates are walked in
  ascending order of NPU id. A single candidate is returned; of two to sixteen candidates
  the one at index 1 of the candidates in descending order of link delay is returned, where
  candidates of equal link delay are in ascending order of NPU id.
\<close>

theorem greedy_selectSourceNpu_up_to_16_candidates:
  assumes "sorted cands" and "cands \<noteq> []" and "length cands \<le> 16"
  shows "greedy_selectSourceNpu gnu_std_sort topo cands dest =
         Inr (spec_selectSourceNpu topo cands dest)"
proof (cases "length cands = 1")
  case True
  then show ?thesis
    by (simp add: greedy_selectSourceNpu_def spec_selectSourceNpu_def)
next
  case False
  with assms(2) have two: "1 < length cands"
    by (cases cands) auto
  let ?pairs = "map (\<lambda>src. (src, getLinkDelay topo src dest)) cands"
  from assms(3) have "gnu_std_sort ?pairs = Inr (sort_key (\<lambda>p. - int (snd p)) ?pairs)"
    by (intro gnu_std_sort_small) simp
  with False two sort_key_fst_candidates [OF assms(1), of "\<lambda>src. getLinkDelay topo src dest"]
  show ?thesis
    by (simp add: greedy_selectSourceNpu_def spec_selectSourceNpu_def Let_def)
qed

theorem greedy_selectSourceNpu_up_to_16_candidates_witness:
  "sorted [0, 1 :: NpuID] \<and> [0, 1 :: NpuID] \<noteq> [] \<and> length [0, 1 :: NpuID] \<le> 16 \<and>
   getLinkDelay fan_topology 0 2 = getLinkDelay fan_topology 1 2 \<and>
   spec_selectSourceNpu fan_topology [0, 1] 2 = 1 \<and>
   greedy_selectSourceNpu gnu_std_sort fan_topology [0, 1] 2 = Inr 1"
proof -
  have delays: "getLinkDelay fan_topology 0 2 = 5" "getLinkDelay fan_topology 1 2 = 5"
    by (simp_all add: getLinkDelay_def fan_topology_def)
  have spec: "spec_selectSourceNpu fan_topology [0, 1] 2 = 1"
    by (simp add: spec_selectSourceNpu_def delays)
  have hyps: "sorted [0, 1 :: NpuID]" "[0, 1 :: NpuID] \<noteq> []" "length [0, 1 :: NpuID] \<le> 16"
    by simp_all
  from greedy_selectSourceNpu_up_to_16_candidates [OF hyps, of fan_topology 2] spec
  have "greedy_selectSourceNpu gnu_std_sort fan_topology [0, 1] 2 = Inr 1"
    by simp
  with hyps delays spec show ?thesis by simp
qed

text \<open>
  C1 as the specification states it fails for 17 candidates of equal link delay: the vector
  has more than 16 elements, \<^verbatim>\<open>std::sort\<close> partitions it around the median of the elements
  at indices 1, 8 and 16, and the partition exchanges elements that are equal under the
  comparator. Of the candidates 0 to 16 into NPU 17 the specification names NPU 1 (the
  second in NPU id order); the sorted vector begins with the pairs of the NPUs 8 and 16,
  and the selection returns NPU 16.
\<close>

theorem greedy_selectSourceNpu_ties_counterexample:
  "sorted [0..16 :: NpuID] \<and> length [0..16 :: NpuID] = 17 \<and>
   map (\<lambda>src. getLinkDelay star_topology src 17) [0..16] = replicate 17 5 \<and>
   spec_selectSourceNpu star_topology [0..16] 17 = 1 \<and>
   gnu_std_sort (map (\<lambda>src. (src, getLinkDelay star_topology src 17)) [0..16]) =
     Inr [(8, 5), (16, 5), (15, 5), (14, 5), (13, 5), (12, 5), (11, 5), (10, 5), (9, 5),
          (0, 5), (7, 5), (6, 5), (5, 5), (4, 5), (3, 5), (2, 5), (1, 5)] \<and>
   greedy_selectSourceNpu gnu_std_sort star_topology [0..16] 17 = Inr 16 \<and>
   greedy_selectSourceNpu gnu_std_sort star_topology [0..16] 17 \<noteq>
     Inr (spec_selectSourceNpu star_topology [0..16] 17)"
  by code_simp

section \<open>Results about the stored conditions of a collective\<close>

lemma allocate_fresh:
  "allocate v h = (a, h') \<Longrightarrow>
   a = next_address h \<and> objects h' a = Some v \<and> next_address h' = Suc (next_address h) \<and>
   (\<forall>b. b \<noteq> a \<longrightarrow> objects h' b = objects h b)"
  by (auto simp: allocate_def)

lemma write_object_other: "b \<noteq> a \<Longrightarrow> objects (write_object a v h) b = objects h b"
  by (simp add: write_object_def)

lemma fold_write_object_other:
  "b \<noteq> a \<Longrightarrow> objects (fold (write_object a) vs h) b = objects h b"
  by (induction vs arbitrary: h) (simp_all add: write_object_other)

lemma fold_write_object_next [simp]:
  "next_address (fold (write_object a) vs h) = next_address h"
  by (induction vs arbitrary: h) (simp_all add: write_object_def)

text \<open>
  C9. Both getters hand the caller a new object: an address that is neither member of the
  collective, holding a copy of the stored condition. Whatever the caller then writes to that
  object, any number of times, both stored conditions are as they were, and a later call of
  the getter returns a copy of the original value again.
\<close>

theorem getters_return_independent_copies:
  assumes "collective_in_store c h"
  shows "(\<exists>a h1. Collective_getPrecondition c h = Some (a, h1) \<and>
            a \<noteq> precondition_at c \<and> a \<noteq> postcondition_at c \<and>
            objects h1 a = objects h (precondition_at c) \<and>
            objects (fold (write_object a) vs h1) (precondition_at c) = objects h (precondition_at c) \<and>
            objects (fold (write_object a) vs h1) (postcondition_at c) = objects h (postcondition_at c) \<and>
            (\<exists>a2 h2. Collective_getPrecondition c (fold (write_object a) vs h1) = Some (a2, h2) \<and>
                      objects h2 a2 = objects h (precondition_at c))) \<and>
         (\<exists>a h1. Collective_getPostcondition c h = Some (a, h1) \<and>
            a \<noteq> precondition_at c \<and> a \<noteq> postcondition_at c \<and>
            objects h1 a = objects h (postcondition_at c) \<and>
            objects (fold (write_object a) vs h1) (precondition_at c) = objects h (precondition_at c) \<and>
            objects (fold (write_object a) vs h1) (postcondition_at c) = objects h (postcondition_at c) \<and>
            (\<exists>a2 h2. Collective_getPostcondition c (fold (write_object a) vs h1) = Some (a2, h2) \<and>
                      objects h2 a2 = objects h (postcondition_at c)))"
proof -
  from assms obtain P Q where P: "objects h (precondition_at c) = Some P"
    and Q: "objects h (postcondition_at c) = Some Q"
    and pa: "precondition_at c < next_address h" and qa: "postcondition_at c < next_address h"
    by (auto simp: collective_in_store_def)
  have copy: "\<exists>a h1. allocate v h = (a, h1) \<and> a \<noteq> precondition_at c \<and> a \<noteq> postcondition_at c \<and>
      objects h1 a = Some v \<and>
      objects (fold (write_object a) vs h1) (precondition_at c) = Some P \<and>
      objects (fold (write_object a) vs h1) (postcondition_at c) = Some Q" for v
  proof -
    obtain a h1 where al: "allocate v h = (a, h1)"
      by (cases "allocate v h")
    from allocate_fresh [OF al] pa qa
    have ne: "a \<noteq> precondition_at c" "a \<noteq> postcondition_at c" and at: "objects h1 a = Some v"
      and "objects h1 (precondition_at c) = Some P" "objects h1 (postcondition_at c) = Some Q"
      using P Q by auto
    then show ?thesis
      using al by (simp add: fold_write_object_other)
  qed
  have pre: ?thesis if "True"
  proof -
    from copy [of P] obtain a h1 where a: "allocate P h = (a, h1)"
      "a \<noteq> precondition_at c" "a \<noteq> postcondition_at c" "objects h1 a = Some P"
      "objects (fold (write_object a) vs h1) (precondition_at c) = Some P"
      "objects (fold (write_object a) vs h1) (postcondition_at c) = Some Q"
      by blast
    from copy [of Q] obtain b k1 where b: "allocate Q h = (b, k1)"
      "b \<noteq> precondition_at c" "b \<noteq> postcondition_at c" "objects k1 b = Some Q"
      "objects (fold (write_object b) vs k1) (precondition_at c) = Some P"
      "objects (fold (write_object b) vs k1) (postcondition_at c) = Some Q"
      by blast
    have again_a: "\<exists>a2 h2. Collective_getPrecondition c (fold (write_object a) vs h1) = Some (a2, h2) \<and>
        objects h2 a2 = Some P"
      using a(5) by (simp add: Collective_getPrecondition_def allocate_def)
    have again_b: "\<exists>a2 h2. Collective_getPostcondition c (fold (write_object b) vs k1) = Some (a2, h2) \<and>
        objects h2 a2 = Some Q"
      using b(6) by (simp add: Collective_getPostcondition_def allocate_def)
    have first: "Collective_getPrecondition c h = Some (a, h1)"
      "Collective_getPostcondition c h = Some (b, k1)"
      using P Q a(1) b(1)
      by (simp_all add: Collective_getPrecondition_def Collective_getPostcondition_def)
    show ?thesis
      unfolding first P Q using a b again_a again_b by simp
  qed
  then show ?thesis by simp
qed

theorem getters_return_independent_copies_witness:
  "collective_in_store (fst (Collective_new 2 \<lparr>objects = Map.empty, next_address = 0\<rparr>))
     (snd (Collective_new 2 \<lparr>objects = Map.empty, next_address = 0\<rparr>)) \<and>
   (\<exists>a h1. Collective_getPrecondition
              (fst (Collective_new 2 \<lparr>objects = Map.empty, next_address = 0\<rparr>))
              (snd (Collective_new 2 \<lparr>objects = Map.empty, next_address = 0\<rparr>)) = Some (a, h1) \<and>
            objects (fold (write_object a) [PreconditionObj Map.empty] h1) 0 =
              objects (snd (Collective_new 2 \<lparr>objects = Map.empty, next_address = 0\<rparr>)) 0)"
proof -
  let ?c = "fst (Collective_new 2 \<lparr>objects = Map.empty, next_address = 0\<rparr>)"
  let ?h = "snd (Collective_new 2 \<lparr>objects = Map.empty, next_address = 0\<rparr>)"
  have addr: "precondition_at ?c = 0" "postcondition_at ?c = 1" "next_address ?h = 2"
    by (simp_all add: Collective_new_def allocate_def Let_def)
  have objs: "objects ?h 0 \<noteq> None" "objects ?h 1 \<noteq> None"
    by (simp_all add: Collective_new_def allocate_def Let_def)
  have wf: "collective_in_store ?c ?h"
    using addr objs by (simp add: collective_in_store_def)
  from getters_return_independent_copies [OF wf, of "[PreconditionObj Map.empty]"]
  obtain a h1 where "Collective_getPrecondition ?c ?h = Some (a, h1)"
    "objects (fold (write_object a) [PreconditionObj Map.empty] h1) (precondition_at ?c) =
       objects ?h (precondition_at ?c)"
    by blast
  then show ?thesis
    using wf addr by auto
qed

section \<open>Results about the choice of the returned beam\<close>

lemma min_element_from_member: "min_element_from s xs \<in> set (s # xs)"
  by (induction xs arbitrary: s) auto

lemma min_element_from_least:
  "x \<in> set (s # xs) \<Longrightarrow>
   getCollectiveTime (min_element_from s xs) \<le> getCollectiveTime x"
proof (induction xs arbitrary: s x)
  case Nil
  then show ?case by simp
next
  case (Cons y ys)
  have a: "getCollectiveTime (min_element_from z ys) \<le> getCollectiveTime z" for z
    using Cons.IH [of z z] by simp
  have b: "getCollectiveTime (min_element_from z ys) \<le> getCollectiveTime x" if "x \<in> set ys" for z
    using Cons.IH [of x z] that by simp
  from Cons.prems consider "x = s" | "x = y" | "x \<in> set ys"
    by auto
  then show ?case
  proof cases
    case 1
    with a [of s] a [of y] show ?thesis by auto
  next
    case 2
    with a [of s] a [of y] show ?thesis by auto
  next
    case 3
    with b show ?thesis by auto
  qed
qed

lemma min_element_Some:
  "min_element xs = Some r \<Longrightarrow>
   r \<in> set xs \<and> (\<forall>x \<in> set xs. getCollectiveTime r \<le> getCollectiveTime x)"
  using min_element_from_member min_element_from_least
  by (cases xs) (auto simp: min_element_def simp del: min_element_from.simps)

section \<open>Results about the greedy synthesizer\<close>

subsection \<open>What one match records\<close>

lemma egressLinksInfo_addIngress [simp]:
  "egressLinksInfo (addIngressLinkInfo chunk src t b r) = egressLinksInfo r"
  by (simp add: addIngressLinkInfo_def Let_def)

lemma egressOf_result_markLinkChunkMatch:
  "egressOf (result_markLinkChunkMatch chunk src dest t b sr) s d =
     (if s = src \<and> d = dest then egressOf sr s d @ [(chunk, t, b)] else egressOf sr s d)"
  by (simp add: egressOf_def result_markLinkChunkMatch_def Let_def addEgressLinkInfo_def
      push_back_at_def)

lemma egressOf_greedy_markLinkChunkMatch:
  "egressOf (synthesisResult (greedy_markLinkChunkMatch topo src dest chunk st)) s d =
     (if s = src \<and> d = dest
      then egressOf (synthesisResult st) s d
           @ [(chunk, currentTime st,
               word_of_nat (currentTime st) - word_of_nat (getLinkDelay topo src dest))]
      else egressOf (synthesisResult st) s d)"
  by (simp add: greedy_markLinkChunkMatch_def Let_def egressOf_result_markLinkChunkMatch)

lemma greedy_markLinkChunkMatch_fields [simp]:
  "currentTime (greedy_markLinkChunkMatch topo src dest chunk st) = currentTime st"
  "eventQueue (greedy_markLinkChunkMatch topo src dest chunk st) = eventQueue st"
  "randomEngine (greedy_markLinkChunkMatch topo src dest chunk st) = randomEngine st"
  "ten (greedy_markLinkChunkMatch topo src dest chunk st) = markLinkOccupied topo src dest (ten st)"
  by (simp_all add: greedy_markLinkChunkMatch_def Let_def)

lemma egressOf_SynthesisResult_new [simp]: "egressOf (SynthesisResult_new topo chunks) s d = []"
  by (simp add: egressOf_def SynthesisResult_new_def NpuResult_new_egress)

subsection \<open>The candidates and the selected source\<close>

lemma checkCandidateSourceNpus_Inr:
  "checkCandidateSourceNpus chunk P srcs = Inr cands \<Longrightarrow>
   cands = filter (\<lambda>s. chunk \<in> held P s) srcs \<and> (\<forall>s \<in> set srcs. P s \<noteq> None)"
proof (induction srcs arbitrary: cands)
  case Nil
  then show ?case by simp
next
  case (Cons s srcs)
  then show ?case
    by (auto simp: map_at_def held_def split: option.splits sum.splits if_splits)
qed

lemma greedy_selectSourceNpu_member:
  assumes "std_sort_contract std_sort"
    and "greedy_selectSourceNpu std_sort topo cands dest = Inr src"
  shows "src \<in> set cands"
proof (cases "length cands = 1")
  case True
  then have "cands \<noteq> []" by auto
  with True assms(2) show ?thesis
    by (auto simp: greedy_selectSourceNpu_def)
next
  case False
  let ?pairs = "map (\<lambda>s. (s, getLinkDelay topo s dest)) cands"
  from std_sort_contract_Inr [OF assms(1)] obtain ys where
    ys: "std_sort ?pairs = Inr ys" and perm: "mset ys = mset ?pairs"
    by blast
  from False assms(2) ys have idx: "1 < length ys" and src: "src = fst (ys ! 1)"
    by (auto simp: greedy_selectSourceNpu_def Let_def split: if_splits)
  from idx have "ys ! 1 \<in> set ys"
    by (rule nth_mem)
  moreover have "set ys = set ?pairs"
    using perm by (metis set_mset_mset)
  ultimately show ?thesis
    using src by auto
qed

text \<open>
  The two ways a pass through the loop body can end: the selected pair had no candidate
  source and only the random engine moved, or a match was made; with a sort that keeps the
  promise of \<^verbatim>\<open>std::sort\<close> the match is made from a candidate source.
\<close>

lemma greedy_matching_step_cases:
  assumes "greedy_matching_step std_sort topo P Q st = Inr (Q', st1)"
  shows "(\<exists>g'. st1 = st\<lparr>randomEngine := g'\<rparr>) \<or>
         (\<exists>g' src dest chunk.
            st1 = greedy_markLinkChunkMatch topo src dest chunk (st\<lparr>randomEngine := g'\<rparr>) \<and>
            (std_sort_contract std_sort \<longrightarrow>
               src \<in> set (backtrackTEN topo (ten st) dest) \<and> chunk \<in> held P src))"
proof -
  from assms(1) obtain dest chunk g' where
    sel: "selectPostcondition (randomEngine st) Q = Inr ((dest, chunk), Q', g')"
    by (auto simp: greedy_matching_step_def Let_def split: sum.splits prod.splits if_splits)
  let ?st = "st\<lparr>randomEngine := g'\<rparr>"
  from assms(1) sel obtain cands where
    chk: "checkCandidateSourceNpus chunk P (backtrackTEN topo (ten st) dest) = Inr cands"
    by (auto simp: greedy_matching_step_def Let_def split: sum.splits)
  show ?thesis
  proof (cases "cands = []")
    case True
    with assms(1) sel chk have "st1 = ?st"
      by (simp add: greedy_matching_step_def Let_def)
    then show ?thesis by blast
  next
    case False
    with assms(1) sel chk obtain src where
      src: "greedy_selectSourceNpu std_sort topo cands dest = Inr src"
      and st1: "st1 = greedy_markLinkChunkMatch topo src dest chunk ?st"
      by (auto simp: greedy_matching_step_def Let_def split: sum.splits)
    have "src \<in> set (backtrackTEN topo (ten st) dest) \<and> chunk \<in> held P src"
      if "std_sort_contract std_sort"
      using greedy_selectSourceNpu_member [OF that src] checkCandidateSourceNpus_Inr [OF chk]
      by auto
    with st1 show ?thesis by blast
  qed
qed

text \<open>A property kept by every pass through the body holds when the loop is left.\<close>

lemma greedy_matching_loop_invariant:
  assumes "greedy_matching_loop std_sort topo P Q st = Inr st'"
    and "I st"
    and "\<And>Q st Q' st1. I st \<Longrightarrow> greedy_matching_step std_sort topo P Q st = Inr (Q', st1) \<Longrightarrow> I st1"
  shows "I st'"
  using assms
proof (induction std_sort topo P Q st rule: greedy_matching_loop.induct)
  case (1 std_sort topo P Q st)
  show ?case
  proof (cases "Q = []")
    case True
    with "1.prems" show ?thesis
      by (simp add: greedy_matching_loop.simps [of _ _ _ "[]"])
  next
    case False
    with "1.prems"(1) obtain Q' st1 where
      step: "greedy_matching_step std_sort topo P Q st = Inr (Q', st1)"
      and rest: "greedy_matching_loop std_sort topo P Q' st1 = Inr st'"
      by (auto simp: greedy_matching_loop.simps [of std_sort topo P Q st] split: sum.splits)
    from "1.prems"(3) [OF "1.prems"(2) step] have "I st1" .
    from "1.IH" [OF False step refl rest this "1.prems"(3)] show ?thesis .
  qed
qed


subsection \<open>The time-expanded network and the event queue\<close>







lemma ten_currentTime_markLinkOccupied [simp]:
  "ten_currentTime (markLinkOccupied topo src dest t) = ten_currentTime t"
  by (simp add: markLinkOccupied_def)




subsection \<open>Recorded start times\<close>









subsection \<open>The snapshot of the precondition\<close>

text \<open>
  C7. Every match made by one call of \<^verbatim>\<open>linkChunkMatching\<close> has a source that held the
  chunk in the precondition as it was when the call began: the matches the call adds to the
  log of a link from \<open>s\<close> are all of chunks in that snapshot of \<open>s\<close>, at the current event
  time. So a chunk that \<open>s\<close> did not hold at the start of the event, whether or not it was
  deposited at \<open>s\<close> during the event, is never sent from \<open>s\<close> in the same event.
\<close>

theorem linkChunkMatching_sources_from_snapshot:
  assumes "std_sort_contract std_sort"
    and "greedy_linkChunkMatching std_sort topo st = Inr st'"
  shows "\<exists>new. egressOf (synthesisResult st') s d = egressOf (synthesisResult st) s d @ new \<and>
           (\<forall>e \<in> set new. fst e \<in> held (precondition st) s \<and> fst (snd e) = currentTime st) \<and>
           (c \<notin> held (precondition st) s \<longrightarrow> (\<forall>e \<in> set new. fst e \<noteq> c))"
proof -
  let ?I = "\<lambda>x. currentTime x = currentTime st \<and>
    (\<forall>s d. \<exists>new. egressOf (synthesisResult x) s d = egressOf (synthesisResult st) s d @ new \<and>
       (\<forall>e \<in> set new. fst e \<in> held (precondition st) s \<and> fst (snd e) = currentTime st))"
  have step: "?I x1" if I: "?I x" and st: "greedy_matching_step std_sort topo (precondition st) Q x = Inr (Q', x1)"
    for Q x Q' x1
  proof -
    from greedy_matching_step_cases [OF st] assms(1)
    consider g' where "x1 = x\<lparr>randomEngine := g'\<rparr>"
      | g' src dest chunk where
        "x1 = greedy_markLinkChunkMatch topo src dest chunk (x\<lparr>randomEngine := g'\<rparr>)"
        "chunk \<in> held (precondition st) src"
      by blast
    then show ?thesis
    proof cases
      case 1
      with I show ?thesis by simp
    next
      case 2
      have "\<exists>new. egressOf (synthesisResult x1) s d = egressOf (synthesisResult st) s d @ new \<and>
          (\<forall>e \<in> set new. fst e \<in> held (precondition st) s \<and> fst (snd e) = currentTime st)"
        for s d
      proof -
        from I obtain new where
          new: "egressOf (synthesisResult x) s d = egressOf (synthesisResult st) s d @ new"
          "\<forall>e \<in> set new. fst e \<in> held (precondition st) s \<and> fst (snd e) = currentTime st"
          by blast
        show ?thesis
        proof (cases "s = src \<and> d = dest")
          case True
          let ?e = "(chunk, currentTime st,
            (word_of_nat (currentTime st) - word_of_nat (getLinkDelay topo src dest) :: StartTime))"
          from True 2 I new(1)
          have "egressOf (synthesisResult x1) s d = egressOf (synthesisResult st) s d @ (new @ [?e])"
            by (simp add: egressOf_greedy_markLinkChunkMatch)
          moreover from True 2(2) new(2)
          have "\<forall>e \<in> set (new @ [?e]). fst e \<in> held (precondition st) s \<and>
              fst (snd e) = currentTime st"
            by auto
          ultimately show ?thesis by blast
        next
          case False
          with 2 new show ?thesis
            by (auto simp: egressOf_greedy_markLinkChunkMatch)
        qed
      qed
      with I 2 show ?thesis by simp
    qed
  qed
  have "?I st" by simp
  from greedy_matching_loop_invariant [where I = ?I,
      OF assms(2) [unfolded greedy_linkChunkMatching_def] this] step
  have "?I st'" by blast
  then obtain new where
    "egressOf (synthesisResult st') s d = egressOf (synthesisResult st) s d @ new"
    "\<forall>e \<in> set new. fst e \<in> held (precondition st) s \<and> fst (snd e) = currentTime st"
    by blast
  then show ?thesis by blast
qed

lemma ring_matching:
  "(case greedy_linkChunkMatching stable_sort_desc ring_topology
           ((GreedySynthesizer_new ring_topology ring_collective zero_engine)
              \<lparr>currentTime := 10,
               ten := updateCurrentTime ring_topology 10 (TimeExpandedNetwork_new ring_topology)\<rparr>) of
      Inl e \<Rightarrow> False
    | Inr st' \<Rightarrow>
        egressOf (synthesisResult st') 1 2 = [(1, 10, 0)] \<and>
        0 \<in> held (precondition st') 1)"
  by code_simp

theorem linkChunkMatching_sources_from_snapshot_witness:
  "std_sort_contract stable_sort_desc \<and>
   (\<exists>st'. greedy_linkChunkMatching stable_sort_desc ring_topology
            ((GreedySynthesizer_new ring_topology ring_collective zero_engine)
               \<lparr>currentTime := 10,
                ten := updateCurrentTime ring_topology 10
                         (TimeExpandedNetwork_new ring_topology)\<rparr>) = Inr st' \<and>
          0 \<notin> held (precondition (GreedySynthesizer_new ring_topology ring_collective zero_engine)) 1 \<and>
          0 \<in> held (precondition st') 1 \<and>
          egressOf (synthesisResult st') 1 2 = [(1, 10, 0)] \<and>
          1 \<in> held (precondition (GreedySynthesizer_new ring_topology ring_collective zero_engine)) 1)"
proof -
  let ?new = "GreedySynthesizer_new ring_topology ring_collective zero_engine"
  let ?st = "?new\<lparr>currentTime := 10,
    ten := updateCurrentTime ring_topology 10 (TimeExpandedNetwork_new ring_topology)\<rparr>"
  define matching where "matching = greedy_linkChunkMatching stable_sort_desc ring_topology ?st"
  from ring_matching have "case matching of
      Inl e \<Rightarrow> False
    | Inr st' \<Rightarrow>
        egressOf (synthesisResult st') 1 2 = [(1, 10, 0)] \<and> 0 \<in> held (precondition st') 1"
    by (simp only: matching_def)
  then obtain st' where "matching = Inr st'"
    and log: "egressOf (synthesisResult st') 1 2 = [(1, 10, 0)]"
    and deposited: "0 \<in> held (precondition st') 1"
    by (cases matching) auto
  then have run: "greedy_linkChunkMatching stable_sort_desc ring_topology ?st = Inr st'"
    by (simp only: matching_def)
  have empty: "egressOf (synthesisResult ?st) 1 2 = []"
    by (simp add: GreedySynthesizer_new_def greedy_scheduleNextEvents_def)
  have notheld: "0 \<notin> held (precondition ?new) 1"
    by (simp add: GreedySynthesizer_new_def greedy_scheduleNextEvents_def getPrecondition_def
        ring_collective_def held_def)
  from linkChunkMatching_sources_from_snapshot [OF stable_sort_desc_contract run, of 1 2 0]
  obtain new where "egressOf (synthesisResult st') 1 2 = egressOf (synthesisResult ?st) 1 2 @ new"
    "\<forall>e \<in> set new. fst e \<in> held (precondition ?st) 1 \<and> fst (snd e) = currentTime ?st"
    by blast
  with log empty have "1 \<in> held (precondition ?new) 1"
    by simp
  with run log notheld deposited stable_sort_desc_contract show ?thesis by blast
qed

subsection \<open>Transmissions on one link\<close>

lemma link_invariant_randomEngine [simp]:
  "link_invariant topo (st\<lparr>randomEngine := g\<rparr>) = link_invariant topo st"
  by (simp add: link_invariant_def)

lemma link_invariant_eventQueue [simp]:
  "link_invariant topo (st\<lparr>eventQueue := q\<rparr>) = link_invariant topo st"
  by (simp add: link_invariant_def)











section \<open>Results about the beam synthesizer\<close>

subsection \<open>Selecting a pair of the working postcondition\<close>

lemma pairsOf_append: "pairsOf (xs @ ys) = pairsOf xs \<union> pairsOf ys"
  by (auto simp: pairsOf_def)

lemma pairsOf_Cons: "pairsOf ((d, cs) # Q) = ({d} \<times> set cs) \<union> pairsOf Q"
  by (auto simp: pairsOf_def)

lemma pairsOf_Nil [simp]: "pairsOf [] = {}"
  by (simp add: pairsOf_def)

lemma pairsOf_key: "(d, c) \<in> pairsOf Q \<Longrightarrow> d \<in> fst ` set Q"
  by (force simp: pairsOf_def)

lemma remove_index_distinct:
  assumes "j < length cs" and "distinct cs"
  shows "set (take j cs @ drop (Suc j) cs) = set cs - {cs ! j} \<and>
         distinct (take j cs @ drop (Suc j) cs)"
proof -
  define ys1 ys2 x where "ys1 = take j cs" and "ys2 = drop (Suc j) cs" and "x = cs ! j"
  have cs: "cs = ys1 @ x # ys2"
    using id_take_nth_drop [OF assms(1)] by (simp only: ys1_def ys2_def x_def)
  from assms(2) have "distinct (ys1 @ x # ys2)"
    by (simp only: cs [symmetric])
  then have "set (ys1 @ ys2) = set (ys1 @ x # ys2) - {x} \<and> distinct (ys1 @ ys2)"
    by auto
  then show ?thesis
    by (simp only: cs [symmetric]) (simp only: ys1_def ys2_def x_def)
qed

lemma selectPostcondition_pairs:
  assumes sel: "selectPostcondition g Q = Inr ((d, c), Q', g')"
    and wf: "distinct_condition Q"
  shows "(d, c) \<in> pairsOf Q \<and> pairsOf Q' = pairsOf Q - {(d, c)} \<and> distinct_condition Q'"
proof -
  from selectPostcondition_Inr [OF sel]
  obtain i j chunks where i: "i < length Q" and dc: "Q ! i = (d, chunks)"
    and j: "j < length chunks" and c: "c = chunks ! j"
    and Q': "Q' = (if take j chunks @ drop (Suc j) chunks = [] then take i Q @ drop (Suc i) Q
                   else Q[i := (d, take j chunks @ drop (Suc j) chunks)])"
    by blast
  define xs ys cs' where "xs = take i Q" and "ys = drop (Suc i) Q"
    and "cs' = take j chunks @ drop (Suc j) chunks"
  have Q: "Q = xs @ (d, chunks) # ys"
    using id_take_nth_drop [OF i] dc by (simp add: xs_def ys_def)
  have Q'': "Q' = (if cs' = [] then xs @ ys else xs @ (d, cs') # ys)"
    using Q' i by (simp add: xs_def ys_def cs'_def upd_conv_take_nth_drop)
  from wf Q have dk: "distinct (map fst xs)" "distinct (map fst ys)"
    "d \<notin> fst ` set xs" "d \<notin> fst ` set ys" "fst ` set xs \<inter> fst ` set ys = {}"
    and dchunks: "distinct chunks"
    and dc_xs: "\<forall>e \<in> set xs. distinct (snd e)" and dc_ys: "\<forall>e \<in> set ys. distinct (snd e)"
    by (auto simp: distinct_condition_def)
  from remove_index_distinct [OF j dchunks] c
  have cs': "set cs' = set chunks - {c}" "distinct cs'"
    by (simp_all add: cs'_def)
  have cmem: "c \<in> set chunks"
    using j c by simp
  have notin: "(d, c) \<notin> pairsOf xs" "(d, c) \<notin> pairsOf ys"
    using dk(3,4) pairsOf_key by blast+
  have member: "(d, c) \<in> pairsOf Q"
    using cmem by (simp add: Q pairsOf_append pairsOf_Cons)
  have pairs: "pairsOf Q' = pairsOf Q - {(d, c)}"
  proof (cases "cs' = []")
    case True
    with cs'(1) cmem have "set chunks = {c}" by auto
    with True notin show ?thesis
      by (auto simp: Q Q'' pairsOf_append pairsOf_Cons)
  next
    case False
    with cs'(1) notin show ?thesis
      by (auto simp: Q Q'' pairsOf_append pairsOf_Cons)
  qed
  have "distinct_condition Q'"
    using dk dchunks dc_xs dc_ys cs'(2)
    by (auto simp: Q'' distinct_condition_def)
  with member pairs show ?thesis by simp
qed

subsection \<open>Conditions after a set of matches\<close>

lemma prune_Nil [simp]: "prune M [] = []"
  unfolding prune_def by (simp only: list.map filter.simps)

lemma prune_Cons:
  "prune M ((k, cs) # Q) =
     (if filter (\<lambda>c. (k, c) \<notin> M) cs = [] \<and> (\<exists>c. (k, c) \<in> M) then prune M Q
      else (k, filter (\<lambda>c. (k, c) \<notin> M) cs) # prune M Q)"
  unfolding prune_def by (simp only: list.map filter.simps prod.case split: if_split) blast

lemma prune_Cons_drop:
  "filter (\<lambda>c. (k, c) \<notin> M) cs = [] \<Longrightarrow> \<exists>c. (k, c) \<in> M \<Longrightarrow>
   prune M ((k, cs) # Q) = prune M Q"
  by (simp only: prune_Cons simp_thms if_True)

lemma prune_Cons_keep:
  "\<not> (filter (\<lambda>c. (k, c) \<notin> M) cs = [] \<and> (\<exists>c. (k, c) \<in> M)) \<Longrightarrow>
   prune M ((k, cs) # Q) = (k, filter (\<lambda>c. (k, c) \<notin> M) cs) # prune M Q"
  by (simp only: prune_Cons if_False)

lemma removeAll_as_filter: "removeAll c cs = filter (\<lambda>x. x \<noteq> c) cs"
  by (induction cs) auto

lemma eraseChunk_prune: "eraseChunk d c Q = prune {(d, c)} Q"
proof (induction Q)
  case Nil
  then show ?case by simp
next
  case (Cons e Q)
  obtain k cs where e: "e = (k, cs)" by (cases e)
  show ?case
  proof (cases "k = d")
    case True
    with Cons show ?thesis
      by (simp add: e eraseChunk_Cons prune_Cons removeAll_as_filter)
  next
    case False
    with Cons show ?thesis
      by (simp add: e eraseChunk_Cons prune_Cons)
  qed
qed

lemma prune_prune: "prune B (prune A Q) = prune (A \<union> B) Q"
proof (induction Q)
  case Nil
  then show ?case by simp
next
  case (Cons e Q)
  obtain k cs where e: "e = (k, cs)" by (cases e)
  define a where "a = filter (\<lambda>c. (k, c) \<notin> A) cs"
  define ab where "ab = filter (\<lambda>c. (k, c) \<notin> A \<union> B) cs"
  have both: "filter (\<lambda>c. (k, c) \<notin> B) a = ab"
    by (simp add: a_def ab_def conj_commute)
  have witness: "\<exists>c. (k, c) \<in> B" if "a \<noteq> []" "ab = []"
    using that by (auto simp: a_def ab_def filter_empty_conv)
  have gone: "ab = []" if "a = []"
    using that by (auto simp: a_def ab_def filter_empty_conv)
  show ?case
  proof (cases "a = [] \<and> (\<exists>c. (k, c) \<in> A)")
    case True
    then have "prune A ((k, cs) # Q) = prune A Q"
      by (intro prune_Cons_drop) (simp_all add: a_def)
    moreover from True gone have "prune (A \<union> B) ((k, cs) # Q) = prune (A \<union> B) Q"
      by (intro prune_Cons_drop) (auto simp: ab_def)
    ultimately show ?thesis
      using Cons.IH by (simp only: e)
  next
    case False
    then have first: "prune A ((k, cs) # Q) = (k, a) # prune A Q"
      unfolding a_def by (rule prune_Cons_keep)
    show ?thesis
    proof (cases "ab = [] \<and> (\<exists>c. (k, c) \<in> B)")
      case True
      then have "prune (A \<union> B) ((k, cs) # Q) = prune (A \<union> B) Q"
        by (intro prune_Cons_drop) (auto simp: ab_def)
      moreover from True both have "prune B ((k, a) # prune A Q) = prune B (prune A Q)"
        by (intro prune_Cons_drop) auto
      ultimately show ?thesis
        using Cons.IH first by (simp only: e)
    next
      case notB: False
      have "\<not> (ab = [] \<and> (\<exists>c. (k, c) \<in> A \<union> B))"
      proof
        assume h: "ab = [] \<and> (\<exists>c. (k, c) \<in> A \<union> B)"
        show False
        proof (cases "a = []")
          case True
          with False h notB show False by blast
        next
          case nonempty: False
          from witness [OF nonempty] h notB show False by blast
        qed
      qed
      then have "prune (A \<union> B) ((k, cs) # Q) = (k, ab) # prune (A \<union> B) Q"
        unfolding ab_def by (rule prune_Cons_keep)
      moreover from notB both
      have "prune B ((k, a) # prune A Q) = (k, ab) # prune B (prune A Q)"
        using prune_Cons_keep [of k B a "prune A Q"] by simp
      ultimately show ?thesis
        using Cons.IH first by (simp only: e)
    qed
  qed
qed

lemma deposit_insertChunk: "deposit M (insertChunk d c P) = deposit (insert (d, c) M) P"
  by (rule ext) (auto simp: deposit_def insertChunk_def held_def)

lemma deposit_empty [simp]: "deposit {} P = P"
  by (simp add: deposit_def)

lemma prune_empty [simp]: "prune {} Q = Q"
  by (induction Q) (auto simp: prune_Cons)

lemma keys_prune: "fst ` set (prune M Q) \<subseteq> fst ` set Q"
proof (induction Q)
  case Nil
  then show ?case by simp
next
  case (Cons e Q)
  obtain k cs where e: "e = (k, cs)" by (cases e)
  show ?case
  proof (cases "filter (\<lambda>c. (k, c) \<notin> M) cs = [] \<and> (\<exists>c. (k, c) \<in> M)")
    case True
    then have "prune M ((k, cs) # Q) = prune M Q"
      by (intro prune_Cons_drop) simp_all
    with Cons show ?thesis
      unfolding e by auto
  next
    case False
    then have "prune M ((k, cs) # Q) = (k, filter (\<lambda>c. (k, c) \<notin> M) cs) # prune M Q"
      by (rule prune_Cons_keep)
    with Cons show ?thesis
      unfolding e by auto
  qed
qed

lemma distinct_condition_prune: "distinct_condition Q \<Longrightarrow> distinct_condition (prune M Q)"
proof (induction Q)
  case Nil
  then show ?case by simp
next
  case (Cons e Q)
  obtain k cs where e: "e = (k, cs)" by (cases e)
  from Cons.prems e have k: "k \<notin> fst ` set Q" and dcs: "distinct cs"
    and rest: "distinct_condition Q"
    by (auto simp: distinct_condition_def)
  from k keys_prune [of M Q] have k': "k \<notin> fst ` set (prune M Q)"
    by blast
  from Cons.IH [OF rest] have IH: "distinct_condition (prune M Q)" .
  show ?case
  proof (cases "filter (\<lambda>c. (k, c) \<notin> M) cs = [] \<and> (\<exists>c. (k, c) \<in> M)")
    case True
    then have "prune M ((k, cs) # Q) = prune M Q"
      by (intro prune_Cons_drop) simp_all
    with IH show ?thesis by (simp only: e)
  next
    case False
    then have "prune M ((k, cs) # Q) = (k, filter (\<lambda>c. (k, c) \<notin> M) cs) # prune M Q"
      by (rule prune_Cons_keep)
    moreover have "distinct_condition ((k, filter (\<lambda>c. (k, c) \<notin> M) cs) # prune M Q)"
      using IH k' dcs by (simp add: distinct_condition_def)
    ultimately show ?thesis by (simp only: e)
  qed
qed
subsection \<open>One beam at one event\<close>

lemma checkCandidateSourceNpus_empty:
  "checkCandidateSourceNpus c P (backtrackTEN topo t d) = Inr cands \<Longrightarrow>
   cands = [] \<longleftrightarrow> \<not> deliverable topo t P (d, c)"
  by (drule checkCandidateSourceNpus_Inr) (auto simp: deliverable_def filter_empty_conv)

lemma beam_matching_step_cases:
  assumes "beam_matching_step mark topo i P Q st = Inr (Q', st1)"
  shows "\<exists>d c g1. selectPostcondition (b_randomEngine st) Q = Inr ((d, c), Q', g1) \<and>
           (deliverable topo (beam_tens st ! i) P (d, c) \<and>
              (\<exists>src g2. st1 = beam_markLinkChunkMatch mark src d c i (st\<lparr>b_randomEngine := g2\<rparr>))
            \<or> \<not> deliverable topo (beam_tens st ! i) P (d, c) \<and> st1 = st\<lparr>b_randomEngine := g1\<rparr>)"
proof -
  from assms obtain d c g1 where
    sel: "selectPostcondition (b_randomEngine st) Q = Inr ((d, c), Q', g1)"
    by (auto simp: beam_matching_step_def Let_def split: sum.splits prod.splits if_splits)
  from assms sel obtain cands where
    chk: "checkCandidateSourceNpus c P (backtrackTEN topo (beam_tens st ! i) d) = Inr cands"
    by (auto simp: beam_matching_step_def Let_def split: sum.splits)
  show ?thesis
  proof (cases "cands = []")
    case True
    with assms sel chk have "st1 = st\<lparr>b_randomEngine := g1\<rparr>"
      by (simp add: beam_matching_step_def Let_def)
    with True checkCandidateSourceNpus_empty [OF chk] sel show ?thesis by blast
  next
    case False
    with assms sel chk obtain src g2 where
      "st1 = beam_markLinkChunkMatch mark src d c i (st\<lparr>b_randomEngine := g2\<rparr>)"
      by (auto simp: beam_matching_step_def Let_def split: sum.splits prod.splits)
    with False checkCandidateSourceNpus_empty [OF chk] sel show ?thesis by blast
  qed
qed

lemma matchedPairs_Nil [simp]: "matchedPairs topo t P [] = {}"
  by (simp add: matchedPairs_def)

lemma map_getCollectiveTime_update:
  "marker_keeps_time mark \<Longrightarrow>
   map getCollectiveTime (rs[i := mark c s d (rs ! i)]) = map getCollectiveTime rs"
  by (cases "i < length rs")
    (simp_all add: map_update marker_keeps_time_def list_update_same_conv list_update_beyond)

text \<open>
  What one call of the beam's \<^verbatim>\<open>linkChunkMatching\<close> leaves behind does not depend on the
  random engine: exactly the deliverable pairs of the working postcondition are matched.
\<close>

lemma beam_matching_loop_result:
  assumes "beam_matching_loop mark topo i P Qw st = Inr st'"
    and "marker_keeps_time mark"
    and "distinct_condition Qw"
    and "i < length (beam_preconditions st)" and "i < length (beam_postconditions st)"
  shows "beam_preconditions st' =
           (beam_preconditions st)
             [i := deposit (matchedPairs topo (beam_tens st ! i) P Qw) (beam_preconditions st ! i)] \<and>
         beam_postconditions st' =
           (beam_postconditions st)
             [i := prune (matchedPairs topo (beam_tens st ! i) P Qw) (beam_postconditions st ! i)] \<and>
         beam_tens st' = beam_tens st \<and> b_currentTime st' = b_currentTime st \<and>
         b_eventQueue st' = b_eventQueue st \<and>
         map getCollectiveTime (beam_results st') = map getCollectiveTime (beam_results st)"
  using assms
proof (induction mark topo i P Qw st rule: beam_matching_loop.induct)
  case (1 mark topo i P Qw st)
  let ?M = "matchedPairs topo (beam_tens st ! i) P Qw"
  show ?case
  proof (cases "Qw = []")
    case True
    with "1.prems"(1) have "st' = st"
      by (simp add: beam_matching_loop.simps [of _ _ _ _ "[]"])
    with True show ?thesis by simp
  next
    case False
    with "1.prems"(1) obtain Q' st1 where
      step: "beam_matching_step mark topo i P Qw st = Inr (Q', st1)"
      and rest: "beam_matching_loop mark topo i P Q' st1 = Inr st'"
      by (auto simp: beam_matching_loop.simps [of mark topo i P Qw st] split: sum.splits)
    from beam_matching_step_cases [OF step] obtain d c g1 where
      sel: "selectPostcondition (b_randomEngine st) Qw = Inr ((d, c), Q', g1)"
      and cases: "deliverable topo (beam_tens st ! i) P (d, c) \<and>
          (\<exists>src g2. st1 = beam_markLinkChunkMatch mark src d c i (st\<lparr>b_randomEngine := g2\<rparr>))
        \<or> \<not> deliverable topo (beam_tens st ! i) P (d, c) \<and> st1 = st\<lparr>b_randomEngine := g1\<rparr>"
      by blast
    from selectPostcondition_pairs [OF sel "1.prems"(3)]
    have mem: "(d, c) \<in> pairsOf Qw" and pairs: "pairsOf Q' = pairsOf Qw - {(d, c)}"
      and wf': "distinct_condition Q'"
      by simp_all
    let ?M' = "matchedPairs topo (beam_tens st ! i) P Q'"
    from cases show ?thesis
    proof
      assume a: "deliverable topo (beam_tens st ! i) P (d, c) \<and>
        (\<exists>src g2. st1 = beam_markLinkChunkMatch mark src d c i (st\<lparr>b_randomEngine := g2\<rparr>))"
      then obtain src g2 where
        st1: "st1 = beam_markLinkChunkMatch mark src d c i (st\<lparr>b_randomEngine := g2\<rparr>)"
        by blast
      from a mem pairs have M: "?M = insert (d, c) ?M'"
        by (auto simp: matchedPairs_def)
      have f: "beam_preconditions st1 =
          (beam_preconditions st)[i := insertChunk d c (beam_preconditions st ! i)]"
        "beam_postconditions st1 =
          (beam_postconditions st)[i := eraseChunk d c (beam_postconditions st ! i)]"
        "beam_tens st1 = beam_tens st" "b_currentTime st1 = b_currentTime st"
        "b_eventQueue st1 = b_eventQueue st"
        "beam_results st1 = (beam_results st)[i := mark c src d (beam_results st ! i)]"
        by (simp_all add: st1 beam_markLinkChunkMatch_def)
      have len: "i < length (beam_preconditions st1)" "i < length (beam_postconditions st1)"
        using "1.prems"(4,5) by (simp_all add: f)
      from "1.IH" [OF False step refl rest "1.prems"(2) wf' len]
      have IH: "beam_preconditions st' =
          (beam_preconditions st1)[i := deposit ?M' (beam_preconditions st1 ! i)]"
        "beam_postconditions st' =
          (beam_postconditions st1)[i := prune ?M' (beam_postconditions st1 ! i)]"
        "beam_tens st' = beam_tens st1" "b_currentTime st' = b_currentTime st1"
        "b_eventQueue st' = b_eventQueue st1"
        "map getCollectiveTime (beam_results st') = map getCollectiveTime (beam_results st1)"
        by (simp_all add: f)
      have pre: "beam_preconditions st' =
          (beam_preconditions st)[i := deposit ?M (beam_preconditions st ! i)]"
        using "1.prems"(4) by (simp add: IH(1) f(1) deposit_insertChunk M)
      have "prune ?M' (eraseChunk d c (beam_postconditions st ! i)) =
          prune ?M (beam_postconditions st ! i)"
        by (simp only: eraseChunk_prune prune_prune M) simp
      then have post: "beam_postconditions st' =
          (beam_postconditions st)[i := prune ?M (beam_postconditions st ! i)]"
        using "1.prems"(5) by (simp add: IH(2) f(2))
      have res: "map getCollectiveTime (beam_results st') = map getCollectiveTime (beam_results st)"
        using map_getCollectiveTime_update [OF "1.prems"(2)] by (simp only: IH(6) f(6))
      from pre post res IH(3,4,5) f(3,4,5) show ?thesis by simp
    next
      assume a: "\<not> deliverable topo (beam_tens st ! i) P (d, c) \<and> st1 = st\<lparr>b_randomEngine := g1\<rparr>"
      with mem pairs have M: "?M' = ?M"
        by (auto simp: matchedPairs_def)
      from a have st1: "st1 = st\<lparr>b_randomEngine := g1\<rparr>" by simp
      have len: "i < length (beam_preconditions st1)" "i < length (beam_postconditions st1)"
        using "1.prems"(4,5) by (simp_all add: st1)
      from "1.IH" [OF False step refl rest "1.prems"(2) wf' len] M
      show ?thesis by (simp add: st1)
    qed
  qed
qed

subsection \<open>All beams at one event\<close>

lemma idle_new [simp]: "idle (TimeExpandedNetwork_new topo)"
  by (simp add: idle_def TimeExpandedNetwork_new_def)

lemma idle_updateCurrentTime: "idle t \<Longrightarrow> idle (updateCurrentTime topo T t)"
  by (simp add: idle_def updateCurrentTime_def)

text \<open>
  On an idle network the sources offered for a destination depend on the current time only:
  they are those of a new network at that time.
\<close>

lemma idle_backtrackTEN:
  "idle t \<Longrightarrow> ten_currentTime t = T \<Longrightarrow>
   backtrackTEN topo t d =
     backtrackTEN topo ((TimeExpandedNetwork_new topo)\<lparr>ten_currentTime := T\<rparr>) d"
  by (simp add: idle_def backtrackTEN_def TimeExpandedNetwork_new_def)

lemma idle_matchedPairs:
  assumes "idle t" and "ten_currentTime t = T"
  shows "matchedPairs topo t P Q =
     matchedPairs topo ((TimeExpandedNetwork_new topo)\<lparr>ten_currentTime := T\<rparr>) P Q"
  by (simp only: matchedPairs_def deliverable_def idle_backtrackTEN [OF assms])

lemma beam_for_lockstep:
  assumes "beam_for mark topo js st = Inr st'"
    and "marker_keeps_time mark" and "distinct js" and "\<forall>j \<in> set js. j < K"
    and "length (beam_preconditions st) = K" and "length (beam_postconditions st) = K"
    and "length (beam_tens st) = K"
    and "\<forall>j \<in> set js. beam_preconditions st ! j = P \<and> beam_postconditions st ! j = Q"
    and "Q \<noteq> []" and "distinct_condition Q" and "\<forall>t \<in> set (beam_tens st). idle t"
    and "b_currentTime st = T"
  shows "length (beam_preconditions st') = K \<and> length (beam_postconditions st') = K \<and>
         length (beam_tens st') = K \<and>
         (\<forall>j < K. beam_preconditions st' ! j =
            (if j \<in> set js
             then deposit (matchedPairs topo ((TimeExpandedNetwork_new topo)\<lparr>ten_currentTime := T\<rparr>) P Q) P
             else beam_preconditions st ! j)) \<and>
         (\<forall>j < K. beam_postconditions st' ! j =
            (if j \<in> set js
             then prune (matchedPairs topo ((TimeExpandedNetwork_new topo)\<lparr>ten_currentTime := T\<rparr>) P Q) Q
             else beam_postconditions st ! j)) \<and>
         (\<forall>t \<in> set (beam_tens st'). idle t) \<and>
         map getCollectiveTime (beam_results st') = map getCollectiveTime (beam_results st) \<and>
         b_currentTime st' = b_currentTime st \<and> b_eventQueue st' = b_eventQueue st"
  using assms
proof (induction js arbitrary: st)
  case Nil
  then show ?case by simp
next
  case (Cons i rest)
  let ?M = "matchedPairs topo ((TimeExpandedNetwork_new topo)\<lparr>ten_currentTime := T\<rparr>) P Q"
  define u where "u = updateCurrentTime topo (b_currentTime st) (beam_tens st ! i)"
  define st0 where "st0 = st\<lparr>beam_tens := (beam_tens st)[i := u]\<rparr>"
  from Cons.prems have i: "i < K" and Pi: "beam_preconditions st ! i = P"
    and Qi: "beam_postconditions st ! i = Q" and inot: "i \<notin> set rest" and dr: "distinct rest"
    by simp_all
  from Cons.prems(7,11) i have "idle (beam_tens st ! i)" by simp
  then have u: "idle u" unfolding u_def by (rule idle_updateCurrentTime)
  have uT: "ten_currentTime u = T"
    using Cons.prems(12) by (simp add: u_def updateCurrentTime_def)
  from Cons.prems(1) Qi Cons.prems(9) obtain st1 where
    body: "beam_matching_loop mark topo i P Q st0 = Inr st1"
    and rest: "beam_for mark topo rest st1 = Inr st'"
    by (auto simp: beam_body_def beam_synthesisCompleted_def beam_linkChunkMatching_def
        st0_def u_def Pi split: sum.splits)
  have len0: "i < length (beam_preconditions st0)" "i < length (beam_postconditions st0)"
    using i Cons.prems(5,6) by (simp_all add: st0_def)
  have ui: "beam_tens st0 ! i = u" using i Cons.prems(7) by (simp add: st0_def)
  have M0: "matchedPairs topo (beam_tens st0 ! i) P Q = ?M"
    by (simp only: ui idle_matchedPairs [OF u uT])
  from beam_matching_loop_result [OF body Cons.prems(2,10) len0]
  have r: "beam_preconditions st1 = (beam_preconditions st)[i := deposit ?M P]"
    "beam_postconditions st1 = (beam_postconditions st)[i := prune ?M Q]"
    "beam_tens st1 = (beam_tens st)[i := u]" "b_currentTime st1 = b_currentTime st"
    "b_eventQueue st1 = b_eventQueue st"
    "map getCollectiveTime (beam_results st1) = map getCollectiveTime (beam_results st)"
    by (simp_all only: M0) (simp_all add: st0_def Pi Qi)
  have idle1: "\<forall>t \<in> set (beam_tens st1). idle t"
  proof
    fix t assume "t \<in> set (beam_tens st1)"
    then have "t \<in> insert u (set (beam_tens st))"
      using set_update_subset_insert [of "beam_tens st" i u] by (auto simp: r(3))
    with u Cons.prems(11) show "idle t" by auto
  qed
  have same: "\<forall>j \<in> set rest. beam_preconditions st1 ! j = P \<and> beam_postconditions st1 ! j = Q"
  proof
    fix j assume j: "j \<in> set rest"
    with inot have "i \<noteq> j" by auto
    with Cons.prems(8) j
    show "beam_preconditions st1 ! j = P \<and> beam_postconditions st1 ! j = Q"
      by (simp add: r(1,2))
  qed
  have lens: "length (beam_preconditions st1) = K" "length (beam_postconditions st1) = K"
    "length (beam_tens st1) = K" "\<forall>j \<in> set rest. j < K"
    using Cons.prems(4,5,6,7) by (simp_all add: r)
  have T1: "b_currentTime st1 = T"
    using Cons.prems(12) by (simp add: r(4))
  note IH = Cons.IH [OF rest Cons.prems(2) dr lens(4) lens(1,2,3) same Cons.prems(9,10) idle1 T1]
  have pre: "\<forall>j < K. beam_preconditions st' ! j =
      (if j \<in> set (i # rest) then deposit ?M P else beam_preconditions st ! j)"
  proof (intro allI impI)
    fix j assume j: "j < K"
    show "beam_preconditions st' ! j =
      (if j \<in> set (i # rest) then deposit ?M P else beam_preconditions st ! j)"
      using IH j Cons.prems(5) by (cases "j = i") (simp_all add: r(1))
  qed
  have post: "\<forall>j < K. beam_postconditions st' ! j =
      (if j \<in> set (i # rest) then prune ?M Q else beam_postconditions st ! j)"
  proof (intro allI impI)
    fix j assume j: "j < K"
    show "beam_postconditions st' ! j =
      (if j \<in> set (i # rest) then prune ?M Q else beam_postconditions st ! j)"
      using IH j Cons.prems(6) by (cases "j = i") (simp_all add: r(2))
  qed
  from IH pre post show ?case by (simp only: r(4,5,6)) blast
qed

lemma all_nth_replicate:
  "length xs = K \<Longrightarrow> \<forall>j < K. xs ! j = x \<Longrightarrow> xs = replicate K x"
  by (simp add: list_eq_iff_nth_eq)

lemma beam_event_lockstep:
  assumes "in_lockstep K P Q st" and "Q \<noteq> []" and "beam_event mark topo K st = Inr st'"
    and "marker_keeps_time mark"
    and "T = fst (pop (b_eventQueue st))"
  shows "in_lockstep K
           (deposit (matchedPairs topo
              ((TimeExpandedNetwork_new topo)\<lparr>ten_currentTime := T\<rparr>) P Q) P)
           (prune (matchedPairs topo
              ((TimeExpandedNetwork_new topo)\<lparr>ten_currentTime := T\<rparr>) P Q) Q) st' \<and>
         b_currentTime st' = T"
proof -
  let ?M = "matchedPairs topo ((TimeExpandedNetwork_new topo)\<lparr>ten_currentTime := T\<rparr>) P Q"
  obtain t q where pq: "pop (b_eventQueue st) = (t, q)" by (cases "pop (b_eventQueue st)")
  with assms(5) have tT: "t = T" by simp
  define st0 where "st0 = st\<lparr>b_eventQueue := q, b_currentTime := t\<rparr>"
  from assms(3) have run: "beam_for mark topo [0..<K] st0 = Inr st'"
    by (simp add: beam_event_def pq st0_def)
  from assms(1) have a: "length (beam_preconditions st0) = K"
    "length (beam_postconditions st0) = K" "length (beam_tens st0) = K"
    "\<forall>j \<in> set [0..<K]. beam_preconditions st0 ! j = P \<and> beam_postconditions st0 ! j = Q"
    "distinct_condition Q" "\<forall>t \<in> set (beam_tens st0). idle t"
    "length (beam_results st) = K" "\<forall>r \<in> set (beam_results st). getCollectiveTime r = 0"
    by (simp_all add: in_lockstep_def st0_def)
  have b: "distinct [0..<K]" "\<forall>j \<in> set [0..<K]. j < K" by simp_all
  have time: "b_currentTime st0 = T" by (simp add: st0_def tT)
  note r = beam_for_lockstep [OF run assms(4) b a(1,2,3,4) assms(2) a(5,6) time]
  from r have pre: "beam_preconditions st' = replicate K (deposit ?M P)"
    by (intro all_nth_replicate) simp_all
  from r have post: "beam_postconditions st' = replicate K (prune ?M Q)"
    by (intro all_nth_replicate) simp_all
  from r have m: "map getCollectiveTime (beam_results st') = map getCollectiveTime (beam_results st)"
    by (simp add: st0_def)
  from arg_cong [OF m, of length] a(7) have len: "length (beam_results st') = K" by simp
  from arg_cong [OF m, of set] a(8) have z: "\<forall>r \<in> set (beam_results st'). getCollectiveTime r = 0"
    by (metis (no_types, lifting) image_iff set_map)
  from r have t: "b_currentTime st' = T" by (simp add: time)
  from r have rest: "length (beam_tens st') = K" "\<forall>t \<in> set (beam_tens st'). idle t" by simp_all
  from pre post len z rest t a(5) show ?thesis
    by (simp add: in_lockstep_def distinct_condition_prune)
qed
subsection \<open>The beams stay in lockstep\<close>

lemma wf_postcondition_distinct: "wf_postcondition Q \<Longrightarrow> distinct_condition Q"
  by (auto simp: wf_postcondition_def distinct_condition_def strict_sorted_iff list_all_iff)

lemma in_lockstep_schedule:
  "in_lockstep K P Q st \<Longrightarrow> in_lockstep K P Q (beam_scheduleNextEvents topo st)"
  by (simp add: in_lockstep_def beam_scheduleNextEvents_def)

lemma in_lockstep_new:
  "wf_postcondition (getPostcondition c) \<Longrightarrow>
   in_lockstep K (getPrecondition c) (getPostcondition c) (BeamSynthesizer_new topo c K g)"
  by (simp add: in_lockstep_def BeamSynthesizer_new_def beam_scheduleNextEvents_def
      wf_postcondition_distinct getCollectiveTime_def SynthesisResult_new_def)

lemma in_lockstep_completed:
  "in_lockstep K P Q st \<Longrightarrow> i < K \<Longrightarrow> beam_synthesisCompleted st i \<longleftrightarrow> Q = []"
  by (simp add: in_lockstep_def beam_synthesisCompleted_def)

lemma in_lockstep_allCompleted: "in_lockstep K P [] st \<Longrightarrow> beam_allCompleted K st"
  by (simp add: beam_allCompleted_def list_all_iff in_lockstep_def beam_synthesisCompleted_def)

lemma beam_for_completed:
  "beam_for mark topo js st = Inr st' \<Longrightarrow> \<forall>j \<in> set js. beam_synthesisCompleted st j \<Longrightarrow>
   beam_postconditions st' = beam_postconditions st"
proof (induction js arbitrary: st)
  case Nil
  then show ?case by simp
next
  case (Cons i rest)
  from Cons.prems obtain st1 where body: "beam_body mark topo i st = Inr st1"
    and rest: "beam_for mark topo rest st1 = Inr st'"
    by (auto split: sum.splits)
  from body Cons.prems(2) have same: "beam_postconditions st1 = beam_postconditions st"
    by (auto simp: beam_body_def split: if_splits)
  with Cons.prems(2) have "\<forall>j \<in> set rest. beam_synthesisCompleted st1 j"
    by (simp add: beam_synthesisCompleted_def)
  from Cons.IH [OF rest this] same show ?case by simp
qed

lemma beam_event_completed:
  assumes "in_lockstep K P [] st" and "beam_event mark topo K st = Inr st'"
  shows "beam_allCompleted K st'"
proof -
  obtain t q where pq: "pop (b_eventQueue st) = (t, q)" by (cases "pop (b_eventQueue st)")
  define st0 where "st0 = st\<lparr>b_eventQueue := q, b_currentTime := t\<rparr>"
  from assms(2) have run: "beam_for mark topo [0..<K] st0 = Inr st'"
    by (simp add: beam_event_def pq st0_def)
  from assms(1) have post: "beam_postconditions st0 = replicate K []"
    by (simp add: in_lockstep_def st0_def)
  then have "\<forall>j \<in> set [0..<K]. beam_synthesisCompleted st0 j"
    by (simp add: beam_synthesisCompleted_def)
  from beam_for_completed [OF run this] post show ?thesis
    by (simp add: beam_allCompleted_def list_all_iff beam_synthesisCompleted_def)
qed

text \<open>
  Every state at the head of the \<^verbatim>\<open>while\<close> loop has all beams on the same precondition and
  postcondition, whatever the random engine drew.
\<close>

lemma beam_run_lockstep:
  assumes "marker_keeps_time mark"
    and "in_lockstep K P Q st"
    and "beam_run n mark topo K st = Inr (False, st')"
  shows "\<exists>P' Q'. in_lockstep K P' Q' st'"
  using assms(2,3)
proof (induction n arbitrary: st P Q)
  case 0
  then show ?case by auto
next
  case (Suc n)
  from Suc.prems(2) obtain st1 where ev: "beam_event mark topo K st = Inr st1"
    and nc: "\<not> beam_allCompleted K st1"
    and rest: "beam_run n mark topo K (beam_scheduleNextEvents topo st1) = Inr (False, st')"
    by (auto split: if_splits sum.splits)
  have "Q \<noteq> []"
  proof
    assume "Q = []"
    with Suc.prems(1) ev have "beam_allCompleted K st1"
      by (auto intro: beam_event_completed)
    with nc show False by simp
  qed
  from beam_event_lockstep [OF Suc.prems(1) this ev assms(1) refl] obtain P1 Q1
    where "in_lockstep K P1 Q1 st1" by blast
  then have "in_lockstep K P1 Q1 (beam_scheduleNextEvents topo st1)"
    by (rule in_lockstep_schedule)
  from Suc.IH [OF this rest] show ?case .
qed

lemma beam_run_add:
  "beam_run n mark topo K s = Inr (False, st) \<Longrightarrow>
   beam_run (n + m) mark topo K s = beam_run m mark topo K st"
  by (induction n arbitrary: s) (auto split: if_splits sum.splits)

subsection \<open>The loop after the while loop\<close>

lemma beam_finish_Suc:
  "beam_finish (Suc n) st =
     (let s = beam_finish n st
      in if getCollectiveTime (beam_results s ! n) = 0
         then s\<lparr>beam_results :=
                  (beam_results s)[n := setCollectiveTime (b_currentTime s) (beam_results s ! n)]\<rparr>
         else s)"
  by (simp add: beam_finish_def Let_def)

lemma beam_finish_0 [simp]: "beam_finish 0 st = st"
  by (simp add: beam_finish_def)

lemma beam_finish_results:
  "n \<le> length (beam_results st) \<Longrightarrow>
   length (beam_results (beam_finish n st)) = length (beam_results st) \<and>
   b_currentTime (beam_finish n st) = b_currentTime st \<and>
   (\<forall>j < length (beam_results st).
      getCollectiveTime (beam_results (beam_finish n st) ! j) =
        (if j < n \<and> getCollectiveTime (beam_results st ! j) = 0 then b_currentTime st
         else getCollectiveTime (beam_results st ! j)))"
proof (induction n)
  case 0
  then show ?case by simp
next
  case (Suc n)
  then have IH: "length (beam_results (beam_finish n st)) = length (beam_results st)"
    "b_currentTime (beam_finish n st) = b_currentTime st"
    "\<forall>j < length (beam_results st).
      getCollectiveTime (beam_results (beam_finish n st) ! j) =
        (if j < n \<and> getCollectiveTime (beam_results st ! j) = 0 then b_currentTime st
         else getCollectiveTime (beam_results st ! j))"
    by simp_all
  from Suc.prems have n: "n < length (beam_results st)" by simp
  with IH(3) have atn: "getCollectiveTime (beam_results (beam_finish n st) ! n) =
      getCollectiveTime (beam_results st ! n)"
    by simp
  show ?case
  proof (intro conjI allI impI)
    show "length (beam_results (beam_finish (Suc n) st)) = length (beam_results st)"
      by (simp add: beam_finish_Suc Let_def IH(1))
    show "b_currentTime (beam_finish (Suc n) st) = b_currentTime st"
      by (simp add: beam_finish_Suc Let_def IH(2))
  next
    fix j assume j: "j < length (beam_results st)"
    with IH(3) have old: "getCollectiveTime (beam_results (beam_finish n st) ! j) =
        (if j < n \<and> getCollectiveTime (beam_results st ! j) = 0 then b_currentTime st
         else getCollectiveTime (beam_results st ! j))"
      by simp
    show "getCollectiveTime (beam_results (beam_finish (Suc n) st) ! j) =
        (if j < Suc n \<and> getCollectiveTime (beam_results st ! j) = 0 then b_currentTime st
         else getCollectiveTime (beam_results st ! j))"
    proof (cases "j = n")
      case True
      with n atn show ?thesis
        by (simp add: beam_finish_Suc Let_def IH(1,2) getCollectiveTime_def setCollectiveTime_def)
    next
      case False
      with old show ?thesis
        by (simp add: beam_finish_Suc Let_def less_Suc_eq)
    qed
  qed
qed

subsection \<open>The number of results\<close>

lemma beam_matching_loop_length:
  "beam_matching_loop mark topo i P Qw st = Inr st' \<Longrightarrow>
   length (beam_results st') = length (beam_results st)"
proof (induction mark topo i P Qw st rule: beam_matching_loop.induct)
  case (1 mark topo i P Qw st)
  show ?case
  proof (cases "Qw = []")
    case True
    with "1.prems" show ?thesis
      by (simp add: beam_matching_loop.simps [of _ _ _ _ "[]"])
  next
    case False
    with "1.prems" obtain Q' st1 where
      step: "beam_matching_step mark topo i P Qw st = Inr (Q', st1)"
      and rest: "beam_matching_loop mark topo i P Q' st1 = Inr st'"
      by (auto simp: beam_matching_loop.simps [of mark topo i P Qw st] split: sum.splits)
    from beam_matching_step_cases [OF step]
    have "length (beam_results st1) = length (beam_results st)"
      by (auto simp: beam_markLinkChunkMatch_def)
    with "1.IH" [OF False step refl rest] show ?thesis by simp
  qed
qed

lemma beam_body_length:
  "beam_body mark topo i st = Inr st' \<Longrightarrow> length (beam_results st') = length (beam_results st)"
  by (auto simp: beam_body_def beam_linkChunkMatching_def dest!: beam_matching_loop_length
      split: if_splits)

lemma beam_for_length:
  "beam_for mark topo js st = Inr st' \<Longrightarrow> length (beam_results st') = length (beam_results st)"
proof (induction js arbitrary: st)
  case Nil
  then show ?case by simp
next
  case (Cons i rest)
  from Cons.prems obtain st1 where body: "beam_body mark topo i st = Inr st1"
    and rest: "beam_for mark topo rest st1 = Inr st'"
    by (auto split: sum.splits)
  from Cons.IH [OF rest] beam_body_length [OF body] show ?case by simp
qed

lemma beam_event_length:
  "beam_event mark topo K st = Inr st' \<Longrightarrow> length (beam_results st') = length (beam_results st)"
  by (auto simp: beam_event_def split: prod.splits dest!: beam_for_length)

lemma beam_run_length:
  "beam_run n mark topo K st = Inr (b, st') \<Longrightarrow>
   length (beam_results st') = length (beam_results st)"
proof (induction n arbitrary: st)
  case 0
  then show ?case by simp
next
  case (Suc n)
  show ?case
  proof (cases "empty_queue (b_eventQueue st)")
    case True
    with Suc.prems show ?thesis by simp
  next
    case False
    with Suc.prems obtain st1 where ev: "beam_event mark topo K st = Inr st1"
      and rest: "beam_allCompleted K st1 \<and> st' = st1 \<or>
        beam_run n mark topo K (beam_scheduleNextEvents topo st1) = Inr (b, st')"
      by (auto split: if_splits sum.splits)
    from rest show ?thesis
    proof
      assume "beam_allCompleted K st1 \<and> st' = st1"
      with beam_event_length [OF ev] show ?thesis by simp
    next
      assume "beam_run n mark topo K (beam_scheduleNextEvents topo st1) = Inr (b, st')"
      from Suc.IH [OF this] beam_event_length [OF ev] show ?thesis
        by (simp add: beam_scheduleNextEvents_def)
    qed
  qed
qed

subsection \<open>The collective time of a beam\<close>

lemma plain_marker_keeps_time: "marker_keeps_time plain_marker"
  by (simp add: marker_keeps_time_def plain_marker_def result_markLinkChunkMatch_def
      getCollectiveTime_def Let_def)

text \<open>
  C5. Take a run of \<^verbatim>\<open>synthesize\<close> on a freshly constructed beam synthesizer, and an event of
  that run, popped at time \<open>T\<close>, during which the postcondition of beam \<open>i\<close> becomes empty.
  Then the postcondition of every beam is empty after this event, so the \<^verbatim>\<open>while\<close> loop is left
  at once; the collective time of beam \<open>i\<close> is still 0 at that point, and the loop after the
  \<^verbatim>\<open>while\<close> loop sets it to \<open>T\<close>. The result that \<^verbatim>\<open>synthesize\<close> returns has collective time
  \<open>T\<close> as well. (The branch inside the \<^verbatim>\<open>while\<close> loop that sets a collective time is taken
  only for a beam found completed at the start of its turn, which never happens before the
  loop is left.)
\<close>

theorem beam_collective_time_is_completion_event:
  assumes "marker_keeps_time mark"
    and "wf_postcondition (getPostcondition collective)"
    and "beam_run n mark topo K (BeamSynthesizer_new topo collective K g) = Inr (False, st)"
    and "\<not> empty_queue (b_eventQueue st)"
    and "beam_event mark topo K st = Inr st'"
    and "i < K"
    and "\<not> beam_synthesisCompleted st i"
    and "beam_synthesisCompleted st' i"
  shows "b_currentTime st' = fst (pop (b_eventQueue st)) \<and>
         getCollectiveTime (beam_results st' ! i) = 0 \<and>
         beam_run (Suc n) mark topo K (BeamSynthesizer_new topo collective K g) = Inr (True, st') \<and>
         getCollectiveTime (beam_results (beam_finish K st') ! i) = b_currentTime st' \<and>
         (\<exists>r. beam_synthesize (Suc n) mark topo K (BeamSynthesizer_new topo collective K g) = Inr r \<and>
              getCollectiveTime r = b_currentTime st')"
proof -
  let ?init = "BeamSynthesizer_new topo collective K g"
  from beam_run_lockstep [OF assms(1) in_lockstep_new [OF assms(2)] assms(3)]
  obtain P Q where before: "in_lockstep K P Q st" by blast
  from in_lockstep_completed [OF before assms(6)] assms(7) have Q: "Q \<noteq> []" by simp
  from beam_event_lockstep [OF before Q assms(5) assms(1) refl] obtain P' Q'
    where after: "in_lockstep K P' Q' st'"
      and time: "b_currentTime st' = fst (pop (b_eventQueue st))"
    by blast
  from in_lockstep_completed [OF after assms(6)] assms(8) have "Q' = []" by simp
  with after have all: "beam_allCompleted K st'"
    by (auto intro: in_lockstep_allCompleted)
  from after have len: "length (beam_results st') = K"
    and zero: "\<forall>r \<in> set (beam_results st'). getCollectiveTime r = 0"
    by (simp_all add: in_lockstep_def)
  from len zero have zero_nth: "\<forall>j < K. getCollectiveTime (beam_results st' ! j) = 0"
    by simp
  from beam_run_add [OF assms(3), of 1] assms(4,5) all
  have run: "beam_run (Suc n) mark topo K ?init = Inr (True, st')"
    by simp
  from len have "K \<le> length (beam_results st')" by simp
  from beam_finish_results [OF this] len zero_nth
  have flen: "length (beam_results (beam_finish K st')) = K"
    and fin: "\<forall>j < K. getCollectiveTime (beam_results (beam_finish K st') ! j) = b_currentTime st'"
    by simp_all
  from flen assms(6) obtain r where
    m: "min_element (beam_results (beam_finish K st')) = Some r"
    by (cases "beam_results (beam_finish K st')") (auto simp: min_element_def)
  from min_element_Some [OF m] have "r \<in> set (beam_results (beam_finish K st'))" by simp
  then obtain j where "j < K" and "r = beam_results (beam_finish K st') ! j"
    by (auto simp: in_set_conv_nth flen)
  with fin have r: "getCollectiveTime r = b_currentTime st'" by simp
  from run m have "beam_synthesize (Suc n) mark topo K ?init = Inr r"
    by (simp add: beam_synthesize_def)
  with r time zero_nth assms(6) run fin show ?thesis by blast
qed

lemma ring_beam_run:
  "(case beam_run 1 plain_marker ring_topology 2
           (BeamSynthesizer_new ring_topology ring_collective 2 zero_engine) of
      Inl e \<Rightarrow> False
    | Inr (b, st) \<Rightarrow>
        \<not> b \<and> \<not> empty_queue (b_eventQueue st) \<and> \<not> beam_synthesisCompleted st 0 \<and>
        fst (pop (b_eventQueue st)) = 20 \<and>
        (case beam_event plain_marker ring_topology 2 st of
           Inl e \<Rightarrow> False
         | Inr st' \<Rightarrow> beam_synthesisCompleted st' 0))"
  by code_simp

lemma ring_collective_wf: "wf_postcondition (getPostcondition ring_collective)"
  by (simp add: wf_postcondition_def getPostcondition_def ring_collective_def)

theorem beam_collective_time_is_completion_event_witness:
  "marker_keeps_time plain_marker \<and> wf_postcondition (getPostcondition ring_collective) \<and>
   (\<exists>st st'.
      beam_run 1 plain_marker ring_topology 2
        (BeamSynthesizer_new ring_topology ring_collective 2 zero_engine) = Inr (False, st) \<and>
      \<not> empty_queue (b_eventQueue st) \<and>
      beam_event plain_marker ring_topology 2 st = Inr st' \<and> (0 :: nat) < 2 \<and>
      \<not> beam_synthesisCompleted st 0 \<and> beam_synthesisCompleted st' 0 \<and>
      b_currentTime st' = 20 \<and>
      getCollectiveTime (beam_results (beam_finish 2 st') ! 0) = 20)"
proof -
  define run1 where "run1 = beam_run 1 plain_marker ring_topology 2
    (BeamSynthesizer_new ring_topology ring_collective 2 zero_engine)"
  from ring_beam_run have "case run1 of
      Inl e \<Rightarrow> False
    | Inr (b, st) \<Rightarrow>
        \<not> b \<and> \<not> empty_queue (b_eventQueue st) \<and> \<not> beam_synthesisCompleted st 0 \<and>
        fst (pop (b_eventQueue st)) = 20 \<and>
        (case beam_event plain_marker ring_topology 2 st of
           Inl e \<Rightarrow> False
         | Inr st' \<Rightarrow> beam_synthesisCompleted st' 0)"
    by (simp only: run1_def)
  then obtain st where run1: "run1 = Inr (False, st)"
    and ne: "\<not> empty_queue (b_eventQueue st)"
    and before: "\<not> beam_synthesisCompleted st 0"
    and next_time: "fst (pop (b_eventQueue st)) = 20"
    and event: "case beam_event plain_marker ring_topology 2 st of
           Inl e \<Rightarrow> False
         | Inr st' \<Rightarrow> beam_synthesisCompleted st' 0"
    by (cases run1) auto
  from event obtain st' where ev: "beam_event plain_marker ring_topology 2 st = Inr st'"
    and after: "beam_synthesisCompleted st' 0"
    by (cases "beam_event plain_marker ring_topology 2 st") auto
  from run1 have run: "beam_run 1 plain_marker ring_topology 2
      (BeamSynthesizer_new ring_topology ring_collective 2 zero_engine) = Inr (False, st)"
    by (simp only: run1_def)
  have two: "(0 :: nat) < 2" by simp
  from beam_collective_time_is_completion_event
    [OF plain_marker_keeps_time ring_collective_wf run ne ev two before after] next_time
  have "b_currentTime st' = 20"
    and "getCollectiveTime (beam_results (beam_finish 2 st') ! 0) = 20"
    by simp_all
  with run ne ev two before after plain_marker_keeps_time ring_collective_wf
  show ?thesis by blast
qed

subsection \<open>The result that is returned\<close>

text \<open>
  C6. When \<^verbatim>\<open>synthesize\<close> of a freshly constructed beam synthesizer with \<open>K\<close> beams returns a
  result, the \<^verbatim>\<open>while\<close> loop was left, there are \<open>K\<close> results after the loop that follows it,
  the returned result is one of them, and no result among them has a smaller collective time.
\<close>

theorem beam_synthesize_returns_least_collective_time:
  assumes "beam_synthesize fuel mark topo K (BeamSynthesizer_new topo collective K g) = Inr r"
  shows "\<exists>st'. beam_run fuel mark topo K (BeamSynthesizer_new topo collective K g) =
                 Inr (True, st') \<and>
               length (beam_results (beam_finish K st')) = K \<and>
               r \<in> set (beam_results (beam_finish K st')) \<and>
               (\<forall>x \<in> set (beam_results (beam_finish K st')).
                  getCollectiveTime r \<le> getCollectiveTime x)"
proof -
  let ?init = "BeamSynthesizer_new topo collective K g"
  from assms obtain st' where run: "beam_run fuel mark topo K ?init = Inr (True, st')"
    and m: "min_element (beam_results (beam_finish K st')) = Some r"
    by (auto simp: beam_synthesize_def split: sum.splits bool.splits option.splits)
  have "length (beam_results ?init) = K"
    by (simp add: BeamSynthesizer_new_def beam_scheduleNextEvents_def)
  with beam_run_length [OF run] have len: "length (beam_results st') = K" by simp
  then have "K \<le> length (beam_results st')" by simp
  from beam_finish_results [OF this] len
  have "length (beam_results (beam_finish K st')) = K" by simp
  with run min_element_Some [OF m] show ?thesis by blast
qed

lemma pair_beam_synthesize:
  "(case beam_synthesize 2 plain_marker pair_topology 2
           (BeamSynthesizer_new pair_topology pair_collective 2 zero_engine) of
      Inl e \<Rightarrow> False
    | Inr r \<Rightarrow> getCollectiveTime r = 20)"
  by code_simp

theorem beam_synthesize_returns_least_collective_time_witness:
  "\<exists>r st'. beam_synthesize 2 plain_marker pair_topology 2
             (BeamSynthesizer_new pair_topology pair_collective 2 zero_engine) = Inr r \<and>
           beam_run 2 plain_marker pair_topology 2
             (BeamSynthesizer_new pair_topology pair_collective 2 zero_engine) = Inr (True, st') \<and>
           length (beam_results (beam_finish 2 st')) = 2 \<and>
           r \<in> set (beam_results (beam_finish 2 st')) \<and> getCollectiveTime r = 20"
proof -
  define result where "result = beam_synthesize 2 plain_marker pair_topology 2
    (BeamSynthesizer_new pair_topology pair_collective 2 zero_engine)"
  from pair_beam_synthesize
  have "case result of Inl e \<Rightarrow> False | Inr r \<Rightarrow> getCollectiveTime r = 20"
    by (simp only: result_def)
  then obtain r where "result = Inr r" and t: "getCollectiveTime r = 20"
    by (cases result) auto
  then have syn: "beam_synthesize 2 plain_marker pair_topology 2
      (BeamSynthesizer_new pair_topology pair_collective 2 zero_engine) = Inr r"
    by (simp only: result_def)
  from beam_synthesize_returns_least_collective_time [OF syn] syn t
  show ?thesis by blast
qed

end
